theory Spec2Isabelle
  imports Main
begin

section \<open>JavaScript strings\<close>

text \<open>
  A JavaScript string is a sequence of UTF-16 code units; \<open>length\<close>, \<open>charCodeAt\<close>,
  \<open>substring\<close> and the regular expressions of the source (none has the \<open>u\<close> flag) all
  count code units. A string is therefore a list of code units, each a natural number.
  \<open>js\<close> turns an ASCII literal into such a string.
\<close>

type_synonym jsstring = "nat list"

definition js :: "string \<Rightarrow> jsstring" where
  "js s = map of_char s"

text \<open>The class \<open>\s\<close> of a regular expression, which is also what \<open>trim\<close> strips:
  the white space and line terminator code points of ECMAScript.\<close>

definition isSpace :: "nat \<Rightarrow> bool" where
  "isSpace c \<longleftrightarrow>
     c = 9 \<or> c = 10 \<or> c = 11 \<or> c = 12 \<or> c = 13 \<or> c = 32 \<or> c = 160 \<or> c = 5760 \<or>
     (8192 \<le> c \<and> c \<le> 8202) \<or> c = 8232 \<or> c = 8233 \<or> c = 8239 \<or> c = 8287 \<or>
     c = 12288 \<or> c = 65279"

text \<open>The class \<open>\d\<close>, and the word characters that decide \<open>\b\<close>.\<close>

definition isDigit :: "nat \<Rightarrow> bool" where
  "isDigit c \<longleftrightarrow> 48 \<le> c \<and> c \<le> 57"

definition isWordChar :: "nat \<Rightarrow> bool" where
  "isWordChar c \<longleftrightarrow> isDigit c \<or> (65 \<le> c \<and> c \<le> 90) \<or> (97 \<le> c \<and> c \<le> 122) \<or> c = 95"

text \<open>
  Matching under the \<open>i\<close> flag without the \<open>u\<close> flag: a code unit of the input matches
  an ASCII character of the pattern iff both have the same ASCII upper case (a code unit
  from 128 on is never canonicalised to an ASCII one). \<open>lowerAscii\<close> folds A-Z onto a-z.
\<close>

definition lowerAscii :: "nat \<Rightarrow> nat" where
  "lowerAscii c = (if 65 \<le> c \<and> c \<le> 90 then c + 32 else c)"

fun strip_prefix :: "jsstring \<Rightarrow> jsstring \<Rightarrow> jsstring option" where
  "strip_prefix [] s = Some s"
| "strip_prefix (p # ps) [] = None"
| "strip_prefix (p # ps) (c # cs) = (if p = c then strip_prefix ps cs else None)"

fun strip_prefix_ci :: "jsstring \<Rightarrow> jsstring \<Rightarrow> jsstring option" where
  "strip_prefix_ci [] s = Some s"
| "strip_prefix_ci (p # ps) [] = None"
| "strip_prefix_ci (p # ps) (c # cs) =
     (if lowerAscii p = lowerAscii c then strip_prefix_ci ps cs else None)"

text \<open>\<open>regex.exec\<close> on a fresh regular expression finds the leftmost match: the pattern is
  tried at position 0, 1, ... up to the end of the input. \<open>find_first m\<close> does that for a
  matcher \<open>m\<close> anchored at the head of its argument.\<close>

fun find_first :: "(jsstring \<Rightarrow> 'a option) \<Rightarrow> jsstring \<Rightarrow> 'a option" where
  "find_first m [] = m []"
| "find_first m (c # cs) = (case m (c # cs) of Some r \<Rightarrow> Some r | None \<Rightarrow> find_first m cs)"

text \<open>\<open>String.prototype.includes\<close>.\<close>

definition includes_str :: "jsstring \<Rightarrow> jsstring \<Rightarrow> bool" where
  "includes_str s sub \<longleftrightarrow> find_first (strip_prefix sub) s \<noteq> None"

text \<open>\<open>String.prototype.trim\<close>, \<open>split\<close> on a one-character separator (the empty string
  splits into one empty piece) and \<open>Array.prototype.join\<close>.\<close>

definition trim :: "jsstring \<Rightarrow> jsstring" where
  "trim s = rev (dropWhile isSpace (rev (dropWhile isSpace s)))"

fun split_on :: "nat \<Rightarrow> jsstring \<Rightarrow> jsstring list" where
  "split_on sep [] = [[]]"
| "split_on sep (c # cs) =
     (if c = sep then [] # split_on sep cs
      else (case split_on sep cs of [] \<Rightarrow> [[c]] | x # xs \<Rightarrow> (c # x) # xs))"

fun join_with :: "jsstring \<Rightarrow> jsstring list \<Rightarrow> jsstring" where
  "join_with sep [] = []"
| "join_with sep [x] = x"
| "join_with sep (x # y # ys) = x @ sep @ join_with sep (y # ys)"

text \<open>
  \<open>String.prototype.toLowerCase\<close>. Its only reader is the test for \<open>\bmso\<close> in
  \<open>removeMSOStyles\<close>, which looks at ASCII letters and at whether a code unit is a word
  character. Besides A-Z, two code units reach ASCII when lowered: the Kelvin sign
  (U+212A, to k) and the dotted capital I (U+0130, to i followed by U+0307). Every other
  code unit from 128 on is lowered to code units from 128 on, which the test cannot tell
  from the original; they are left as they are.
\<close>

definition toLowerCase :: "jsstring \<Rightarrow> jsstring" where
  "toLowerCase s =
     concat (map (\<lambda>c. if c = 8490 then [107] else if c = 304 then [105, 775]
                       else [lowerAscii c]) s)"

text \<open>\<open>Number.prototype.toString\<close> of a non-negative integer, and \<open>parseInt\<close> of a
  string of decimal digits. The model keeps the exact natural number and prints all of its
  digits. The code holds the number in a double: the two agree below \<open>2 ^ 53\<close>; from there
  on \<open>parseInt\<close> rounds, and from \<open>10 ^ 21\<close> on a number is printed in exponent notation.
  A start index has at most 10 digits; only a list level can be that large.\<close>

function toString :: "nat \<Rightarrow> jsstring" where
  "toString n = (if n < 10 then [48 + n] else toString (n div 10) @ [48 + n mod 10])"
  by pat_completeness auto
termination
  by (relation "measure id") auto

declare toString.simps [simp del]

definition parseInt :: "jsstring \<Rightarrow> nat" where
  "parseInt ds = foldl (\<lambda>acc d. 10 * acc + (d - 48)) 0 ds"

section \<open>Whitespace normalization on the raw string\<close>

text \<open>
  The replacement of \<open>normalizeSafariSpaceSpans\<close> and \<open>normalizeSpacerunSpans\<close>:
  \<open>Array(n + 1).join(nbsp + ' ').substring(0, n)\<close>, the first \<open>n\<close> code units of
  \<open>n\<close> copies of a non-breaking space (160) followed by a space (32).
\<close>

definition nbspSpaces :: "nat \<Rightarrow> jsstring" where
  "nbspSpaces n = take n (concat (replicate n [160, 32]))"

text \<open>
  The regular expression \<open><span(?: class="Apple-converted-space"|)>(\s+)<\/span>\<close>
  anchored at the head of the input: the captured white space and the input after the
  match. After \<open><span\<close> the next code unit is a space or \<open>>\<close>, so at most one alternative
  of the group applies; \<open>\s+\<close> must take the whole run of white space, since \<open><\<close> follows.
\<close>

definition spanOpen_at :: "jsstring \<Rightarrow> jsstring option" where
  \<open>spanOpen_at s =
     (case strip_prefix (js ''<span'') s of
        None \<Rightarrow> None
      | Some r \<Rightarrow>
          (case strip_prefix (js '' class="Apple-converted-space"'') r of
             Some r1 \<Rightarrow> strip_prefix (js ''>'') r1
           | None \<Rightarrow> strip_prefix (js ''>'') r))\<close>

definition safariSpan_at :: "jsstring \<Rightarrow> (jsstring \<times> jsstring) option" where
  "safariSpan_at s =
     (case spanOpen_at s of
        None \<Rightarrow> None
      | Some body \<Rightarrow>
          (if takeWhile isSpace body = [] then None
           else (case strip_prefix (js ''</span>'') (dropWhile isSpace body) of
                   None \<Rightarrow> None
                 | Some rest \<Rightarrow> Some (takeWhile isSpace body, rest))))"

definition safariReplacement :: "jsstring \<Rightarrow> jsstring" where
  "safariReplacement spaces =
     (if length spaces = 1 then js '' '' else nbspSpaces (length spaces))"

lemma strip_prefix_length: "strip_prefix p s = Some r \<Longrightarrow> length r + length p = length s"
  by (induction p s rule: strip_prefix.induct) (auto split: if_splits)

lemma spanOpen_at_shorter: "spanOpen_at s = Some body \<Longrightarrow> length body < length s"
  by (auto simp: spanOpen_at_def js_def split: option.splits dest!: strip_prefix_length)

lemma safariSpan_at_shorter: "safariSpan_at s = Some (sp, rest) \<Longrightarrow> length rest < length s"
proof -
  assume m: "safariSpan_at s = Some (sp, rest)"
  then obtain body where body: "spanOpen_at s = Some body"
    and rest: "strip_prefix (js ''</span>'') (dropWhile isSpace body) = Some rest"
    by (auto simp: safariSpan_at_def split: option.splits if_splits)
  have "length rest \<le> length (dropWhile isSpace body)"
    using strip_prefix_length [OF rest] by simp
  also have "\<dots> \<le> length body"
    by (rule length_dropWhile_le)
  also have "\<dots> < length s"
    by (rule spanOpen_at_shorter [OF body])
  finally show ?thesis .
qed

text \<open>\<open>htmlString.replace(regex, callback)\<close> with the \<open>g\<close> flag: every match, from left to
  right, is replaced; the search goes on after the match.\<close>

function normalizeSafariSpaceSpans :: "jsstring \<Rightarrow> jsstring" where
  "normalizeSafariSpaceSpans [] = []"
| "normalizeSafariSpaceSpans (c # cs) =
     (case safariSpan_at (c # cs) of
        Some (spaces, rest) \<Rightarrow> safariReplacement spaces @ normalizeSafariSpaceSpans rest
      | None \<Rightarrow> c # normalizeSafariSpaceSpans cs)"
  by pat_completeness auto
termination
  by (relation "measure length") (auto dest: safariSpan_at_shorter)

section \<open>Inline styles and list metadata\<close>

text \<open>
  The test \<open>/\bmso/gi.exec(s)\<close> on a regular expression literal evaluated afresh at each
  call: some position of \<open>s\<close> holds \<open>mso\<close> in any letter case, and (the word boundary)
  the code unit before it, if there is one, is not a word character.
\<close>

fun msoFrom :: "bool \<Rightarrow> jsstring \<Rightarrow> bool" where
  "msoFrom prevWord [] = False"
| "msoFrom prevWord (c # cs) =
     ((\<not> prevWord \<and> strip_prefix_ci (js ''mso'') (c # cs) \<noteq> None) \<or> msoFrom (isWordChar c) cs)"

definition matchesMso :: "jsstring \<Rightarrow> bool" where
  "matchesMso s = msoFrom False s"

text \<open>\<open>convertStyleToObject\<close>: the declarations between semicolons, each cut at its
  colons; the first two parts, trimmed, are the property and its value, kept when
  neither is empty. A later declaration of a property overwrites an earlier one.\<close>

definition convertStyleToObject :: "jsstring \<Rightarrow> (jsstring \<rightharpoonup> jsstring)" where
  "convertStyleToObject styleString =
     (if styleString = [] then Map.empty
      else foldl (\<lambda>styleObject declaration.
                    (case map trim (split_on 58 declaration) of
                       property # val # _ \<Rightarrow>
                         (if property \<noteq> [] \<and> val \<noteq> [] then styleObject(property \<mapsto> val)
                          else styleObject)
                     | _ \<Rightarrow> styleObject))
             Map.empty (map trim (split_on 59 styleString)))"

record listItemData =
  c_id :: "jsstring option"
  c_order :: "jsstring option"
  c_indent :: "nat option"

text \<open>
  The three patterns of \<open>getListItemData\<close>, all with the \<open>i\<close> flag.
  \<open>(^|\s{1,100})l(\d+)\<close> finds the first \<open>l\<close> that is followed by a digit and stands at
  the start of the value or right after a white space character (a match may begin up
  to 100 white space characters before that \<open>l\<close>, and the leftmost match belongs to the
  first such \<open>l\<close>); group 2 is the run of digits after it.
  \<open>\s{0,100}lfo(\d+)\<close> and \<open>\s{0,100}level(\d+)\<close> find the first \<open>lfo\<close>, respectively
  \<open>level\<close>, that is followed by a digit; group 1 is the run of digits.
\<close>

fun idMatchFrom :: "bool \<Rightarrow> jsstring \<Rightarrow> jsstring option" where
  "idMatchFrom ok [] = None"
| "idMatchFrom ok (c # cs) =
     (if ok \<and> lowerAscii c = 108 \<and> takeWhile isDigit cs \<noteq> [] then Some (takeWhile isDigit cs)
      else idMatchFrom (isSpace c) cs)"

definition idMatch :: "jsstring \<Rightarrow> jsstring option" where
  "idMatch listStyle = idMatchFrom True listStyle"

definition digitsAfter_at :: "jsstring \<Rightarrow> jsstring \<Rightarrow> jsstring option" where
  "digitsAfter_at word s =
     (case strip_prefix_ci word s of
        None \<Rightarrow> None
      | Some r \<Rightarrow> (if takeWhile isDigit r = [] then None else Some (takeWhile isDigit r)))"

definition orderMatch :: "jsstring \<Rightarrow> jsstring option" where
  "orderMatch listStyle = find_first (digitsAfter_at (js ''lfo'')) listStyle"

definition indentMatch :: "jsstring \<Rightarrow> jsstring option" where
  "indentMatch listStyle = find_first (digitsAfter_at (js ''level'')) listStyle"

definition getListItemData :: "(jsstring \<rightharpoonup> jsstring) \<Rightarrow> listItemData" where
  "getListItemData styles =
     (case styles (js ''mso-list'') of
        None \<Rightarrow> \<lparr>c_id = None, c_order = None, c_indent = None\<rparr>
      | Some listStyle \<Rightarrow>
          (case (idMatch listStyle, orderMatch listStyle, indentMatch listStyle) of
             (Some i, Some order, Some indent) \<Rightarrow>
               \<lparr>c_id = Some i, c_order = Some order, c_indent = Some (parseInt indent)\<rparr>
           | _ \<Rightarrow> \<lparr>c_id = None, c_order = None, c_indent = Some 1\<rparr>))"

section \<open>The document tree\<close>

text \<open>
  The tree that \<open>DOMParser\<close> returns is mutated in place while the source holds references
  to its nodes, so the model is a store: a node is a natural number, and the store is
  the list of the fields of the nodes 0, 1, 2, ... made so far. Node 0 is the document
  node. \<open>fresh\<close> is the next unused node; every node of the tree is below it, so it also
  bounds the depth of the tree. A new node goes to the end of the list.

  \<open>tag\<close> is \<open>tagName.toLowerCase()\<close> of an element (the parser gives an HTML element a
  lower-case name and \<open>tagName\<close> is its ASCII upper case). A text or comment node has
  no \<open>tagName\<close>: reading it gives \<open>undefined\<close>. Of the attributes, the model keeps the
  ones the source reads or writes: \<open>style\<close>, \<open>class\<close> (as the ordered, duplicate-free
  token list \<open>classList\<close>), \<open>type\<close> and \<open>start\<close>.
\<close>

datatype nodeKind = ElementNode | TextNode | CommentNode | DocumentNode

record dnode =
  kind :: nodeKind
  tag :: jsstring
  isHTMLElement :: bool
  styleAttr :: "jsstring option"
  classList :: "jsstring list"
  typeAttr :: "jsstring option"
  startAttr :: "jsstring option"
  childNodes :: "nat list"
  parentNode :: "nat option"
  nodeData :: jsstring

type_synonym document = "dnode list"

definition newElement :: "jsstring \<Rightarrow> dnode" where
  "newElement t =
     \<lparr>kind = ElementNode, tag = t, isHTMLElement = True, styleAttr = None, classList = [],
      typeAttr = None, startAttr = None, childNodes = [], parentNode = None, nodeData = []\<rparr>"

definition newText :: "jsstring \<Rightarrow> dnode" where
  "newText text =
     \<lparr>kind = TextNode, tag = [], isHTMLElement = False, styleAttr = None, classList = [],
      typeAttr = None, startAttr = None, childNodes = [], parentNode = None, nodeData = text\<rparr>"

text \<open>The fields of node \<open>n\<close>. The source only holds references to nodes that exist; for
  any other number the model answers with an empty text node.\<close>

definition nodes :: "document \<Rightarrow> nat \<Rightarrow> dnode" where
  "nodes d n = (if n < length d then d ! n else newText [])"

definition fresh :: "document \<Rightarrow> nat" where
  "fresh d = length d"

datatype error = TypeError | RangeError | HierarchyRequestError | NotFoundError

definition isElement :: "document \<Rightarrow> nat \<Rightarrow> bool" where
  "isElement d n \<longleftrightarrow> kind (nodes d n) = ElementNode"

definition parentElement :: "document \<Rightarrow> nat \<Rightarrow> nat option" where
  "parentElement d n =
     (case parentNode (nodes d n) of
        None \<Rightarrow> None
      | Some p \<Rightarrow> (if isElement d p then Some p else None))"

fun prev_in :: "nat list \<Rightarrow> nat \<Rightarrow> nat option" where
  "prev_in [] n = None"
| "prev_in [x] n = None"
| "prev_in (x # y # ys) n = (if y = n then Some x else prev_in (y # ys) n)"

definition previousSibling :: "document \<Rightarrow> nat \<Rightarrow> nat option" where
  "previousSibling d n =
     (case parentNode (nodes d n) of
        None \<Rightarrow> None
      | Some p \<Rightarrow> prev_in (childNodes (nodes d p)) n)"

text \<open>\<open>children\<close>: the element children only.\<close>

definition children :: "document \<Rightarrow> nat \<Rightarrow> nat list" where
  "children d n = filter (isElement d) (childNodes (nodes d n))"

text \<open>The nodes below a node, in tree order. The first argument bounds the depth.\<close>

fun descendants :: "nat \<Rightarrow> document \<Rightarrow> nat \<Rightarrow> nat list" where
  "descendants 0 d n = []"
| "descendants (Suc f) d n =
     concat (map (\<lambda>k. k # descendants f d k) (childNodes (nodes d n)))"

definition querySelectorAll_star :: "document \<Rightarrow> nat list" where
  "querySelectorAll_star d = filter (isElement d) (descendants (fresh d) d 0)"

definition querySelectorAll_tag :: "document \<Rightarrow> nat \<Rightarrow> jsstring \<Rightarrow> nat list" where
  "querySelectorAll_tag d n t =
     filter (\<lambda>k. isElement d k \<and> tag (nodes d k) = t) (descendants (fresh d) d n)"

definition textContent :: "document \<Rightarrow> nat \<Rightarrow> jsstring" where
  "textContent d n =
     concat (map (\<lambda>k. nodeData (nodes d k))
                 (filter (\<lambda>k. kind (nodes d k) = TextNode) (descendants (fresh d) d n)))"

text \<open>\<open>isList\<close> reads \<open>element.tagName.toLowerCase()\<close>: on a node that is not an element
  \<open>tagName\<close> is \<open>undefined\<close> and the call throws a TypeError.\<close>

definition isList :: "document \<Rightarrow> nat \<Rightarrow> error + bool" where
  "isList d n =
     (if isElement d n then Inr (tag (nodes d n) = js ''ul'' \<or> tag (nodes d n) = js ''ol'')
      else Inl TypeError)"

subsection \<open>Mutation\<close>

definition removeFromParent :: "document \<Rightarrow> nat \<Rightarrow> document" where
  "removeFromParent d n =
     (case parentNode (nodes d n) of
        None \<Rightarrow> d
      | Some p \<Rightarrow>
          d[p := (nodes d p)\<lparr>childNodes := removeAll n (childNodes (nodes d p))\<rparr>,
            n := (nodes d n)\<lparr>parentNode := None\<rparr>])"

text \<open>\<open>a\<close> is \<open>n\<close> or one of its ancestors (the walk up is bounded by the first argument).\<close>

fun inclusiveAncestor :: "nat \<Rightarrow> document \<Rightarrow> nat \<Rightarrow> nat \<Rightarrow> bool" where
  "inclusiveAncestor 0 d a n = (a = n)"
| "inclusiveAncestor (Suc f) d a n =
     (a = n \<or> (case parentNode (nodes d n) of
                 None \<Rightarrow> False
               | Some p \<Rightarrow> inclusiveAncestor f d a p))"

text \<open>\<open>parent.appendChild(node)\<close> moves the node: it leaves its old parent and becomes the
  last child. Inserting a node into itself or its own subtree is a HierarchyRequestError.\<close>

definition appendChild :: "document \<Rightarrow> nat \<Rightarrow> nat \<Rightarrow> error + document" where
  "appendChild d parent node =
     (if inclusiveAncestor (fresh d) d node parent then Inl HierarchyRequestError
      else (let d1 = removeFromParent d node
            in Inr (d1[parent := (nodes d1 parent)
                                   \<lparr>childNodes := childNodes (nodes d1 parent) @ [node]\<rparr>,
                       node := (nodes d1 node)\<lparr>parentNode := Some parent\<rparr>])))"

fun insert_before :: "nat \<Rightarrow> nat \<Rightarrow> nat list \<Rightarrow> nat list" where
  "insert_before ref node [] = []"
| "insert_before ref node (x # xs) =
     (if x = ref then node # x # xs else x # insert_before ref node xs)"

text \<open>\<open>parent.insertBefore(node, ref)\<close>; a \<open>ref\<close> that is not a child of \<open>parent\<close> is a
  NotFoundError. The source only inserts a newly created element, so \<open>node\<close> is not \<open>ref\<close>.\<close>

definition insertBefore :: "document \<Rightarrow> nat \<Rightarrow> nat \<Rightarrow> nat \<Rightarrow> error + document" where
  "insertBefore d parent node ref =
     (if inclusiveAncestor (fresh d) d node parent then Inl HierarchyRequestError
      else if ref \<notin> set (childNodes (nodes d parent)) then Inl NotFoundError
      else (let d1 = removeFromParent d node
            in Inr (d1[parent := (nodes d1 parent)
                                   \<lparr>childNodes := insert_before ref node
                                                    (childNodes (nodes d1 parent))\<rparr>,
                       node := (nodes d1 node)\<lparr>parentNode := Some parent\<rparr>])))"

definition createElement :: "document \<Rightarrow> jsstring \<Rightarrow> document \<times> nat" where
  "createElement d t =
     (d @ [newElement t], fresh d)"

section \<open>The style interpreter\<close>

record candidate = listItemData +
  c_element :: nat

record listStyle =
  ls_type :: jsstring
  startIndex :: "nat option"
  ls_style :: "jsstring option"
  isLegalStyleList :: bool

text \<open>
  \<open>findListMarkerNode\<close>. It reads \<open>element.children\<close>, the element children, both for
  the test of the first child and for the loop.
\<close>

definition findListMarkerNode :: "document \<Rightarrow> nat \<Rightarrow> nat option" where
  "findListMarkerNode d element =
     (if (case children d element of [] \<Rightarrow> False | first # _ \<Rightarrow> tag (nodes d first) = js ''#text'')
      then None
      else List.find (\<lambda>childNode. tag (nodes d childNode) = js ''element'' \<or>
                                   tag (nodes d childNode) = js ''span'')
             (children d element))"

text \<open>The marker glyphs: \<open>o\<close>, a first code unit 183 (the middle dot), and the section
  sign (code unit 167).\<close>

definition bulletOfMarker :: "jsstring \<Rightarrow> jsstring option" where
  "bulletOfMarker listMarker =
     (if listMarker = js ''o'' then Some (js ''circle'')
      else if (case listMarker of [] \<Rightarrow> False | c # _ \<Rightarrow> c = 183) then Some (js ''disc'')
      else if listMarker = [167] then Some (js ''square'')
      else None)"

definition findBulletedListStyle :: "document \<Rightarrow> nat \<Rightarrow> error + jsstring option" where
  "findBulletedListStyle d element =
     (let viaMarker =
            (case findListMarkerNode d element of
               None \<Rightarrow> None
             | Some listMarkerElement \<Rightarrow> bulletOfMarker (textContent d listMarkerElement))
      in if tag (nodes d element) = js ''li'' then
           (case parentElement d element of
              None \<Rightarrow> Inl TypeError
            | Some p \<Rightarrow>
                (if tag (nodes d p) = js ''ul'' \<and> typeAttr (nodes d p) \<noteq> None
                 then Inr (typeAttr (nodes d p))
                 else Inr viaMarker))
         else Inr viaMarker)"

definition mapListStyleDefinition :: "jsstring \<Rightarrow> jsstring option" where
  "mapListStyleDefinition v =
     (if strip_prefix (js ''arabic-leading-zero'') v \<noteq> None then Some (js ''decimal-leading-zero'')
      else if v = js ''alpha-upper'' then Some (js ''upper-alpha'')
      else if v = js ''alpha-lower'' then Some (js ''lower-alpha'')
      else if v = js ''roman-upper'' then Some (js ''upper-roman'')
      else if v = js ''roman-lower'' then Some (js ''lower-roman'')
      else if v = js ''circle'' \<or> v = js ''disc'' \<or> v = js ''square'' then Some v
      else None)"

text \<open>
  The regular expressions of \<open>detectListStyle\<close>, each anchored at the head of the input
  and then searched with \<open>find_first\<close>. All have the \<open>i\<close> flag. The list id put into a
  pattern is a string of digits or the text \<open>undefined\<close>, the level a decimal number.

  \<open>@list l<id>:level<indent>\s*({[^}]*)\<close>: group 1 is the brace and all that follows up
  to the next closing brace.
\<close>

definition listStyle_at :: "jsstring \<Rightarrow> jsstring \<Rightarrow> jsstring option" where
  "listStyle_at head s =
     (case strip_prefix_ci head s of
        None \<Rightarrow> None
      | Some r \<Rightarrow>
          (case dropWhile isSpace r of
             [] \<Rightarrow> None
           | c # cs \<Rightarrow> (if c = 123 then Some (123 # takeWhile (\<lambda>x. x \<noteq> 125) cs) else None)))"

text \<open>\<open>mso-level-number-format:([^;]{0,100});\<close>: the value runs up to the next semicolon,
  which must come after at most 100 code units.\<close>

definition numberFormat_at :: "jsstring \<Rightarrow> jsstring option" where
  "numberFormat_at s =
     (case strip_prefix_ci (js ''mso-level-number-format:'') s of
        None \<Rightarrow> None
      | Some r \<Rightarrow>
          (if length (takeWhile (\<lambda>c. c \<noteq> 59) r) \<le> 100 \<and> dropWhile (\<lambda>c. c \<noteq> 59) r \<noteq> []
           then Some (takeWhile (\<lambda>c. c \<noteq> 59) r) else None))"

text \<open>
  \<open>mso-level-start-at:\s{0,100}([0-9]{0,10})\s{0,100};\<close>. With digits present, the white
  space before them is all of the first \<open>\s{0,100}\<close>; with none, the two \<open>\s{0,100}\<close>
  share one run of white space, of up to 200 code units, and group 1 is empty.
\<close>

definition startAt_at :: "jsstring \<Rightarrow> jsstring option" where
  "startAt_at s =
     (case strip_prefix_ci (js ''mso-level-start-at:'') s of
        None \<Rightarrow> None
      | Some r \<Rightarrow>
          (let r1 = dropWhile isSpace r;
               ds = takeWhile isDigit r1;
               r2 = dropWhile isDigit r1;
               r3 = dropWhile isSpace r2
           in if ds = [] then
                (if length (takeWhile isSpace r) \<le> 200 \<and> strip_prefix [59] r1 \<noteq> None
                 then Some [] else None)
              else if length (takeWhile isSpace r) \<le> 100 \<and> length ds \<le> 10 \<and>
                      length (takeWhile isSpace r2) \<le> 100 \<and> strip_prefix [59] r3 \<noteq> None
              then Some ds else None))"

text \<open>\<open>within_run ok m s\<close>: the tail pattern \<open>m\<close> matches at some offset of \<open>s\<close> before
  which every code unit satisfies \<open>ok\<close>; this is \<open>[^{]*\<close> followed by the tail, with
  backtracking.\<close>

fun within_run :: "(nat \<Rightarrow> bool) \<Rightarrow> (jsstring \<Rightarrow> bool) \<Rightarrow> jsstring \<Rightarrow> bool" where
  "within_run ok m [] = m []"
| "within_run ok m (c # cs) = (m (c # cs) \<or> (ok c \<and> within_run ok m cs))"

text \<open>The common part \<open>level\d\s*{[^{]*\<close> of the two patterns that look at every level
  of a list, with the tail that follows it.\<close>

definition anyLevel_at :: "(jsstring \<Rightarrow> bool) \<Rightarrow> jsstring \<Rightarrow> unit option" where
  "anyLevel_at tail r =
     (case r of
        [] \<Rightarrow> None
      | dgt # r1 \<Rightarrow>
          (if \<not> isDigit dgt then None
           else (case dropWhile isSpace r1 of
                   [] \<Rightarrow> None
                 | c # cs \<Rightarrow>
                     (if c = 123 \<and> within_run (\<lambda>x. x \<noteq> 123) tail cs then Some () else None))))"

text \<open>The tail \<open>mso-level-text:"%\d\\.\<close>: after the digit a backslash (92), then any
  code unit that is not a line terminator.\<close>

definition legalTail :: "jsstring \<Rightarrow> bool" where
  \<open>legalTail s =
     (case strip_prefix_ci (js ''mso-level-text:"%'') s of
        None \<Rightarrow> False
      | Some r \<Rightarrow>
          (case r of
             dgt # b # x # _ \<Rightarrow>
               isDigit dgt \<and> b = 92 \<and> x \<noteq> 10 \<and> x \<noteq> 13 \<and> x \<noteq> 8232 \<and> x \<noteq> 8233
           | _ \<Rightarrow> False))\<close>

text \<open>\<open>@list\s+l<id>:level\d\s*{[^{]*mso-level-text:"%\d\\.\<close>\<close>

definition legalStyleList_at :: "jsstring \<Rightarrow> jsstring \<Rightarrow> unit option" where
  "legalStyleList_at idStr s =
     (case strip_prefix_ci (js ''@list'') s of
        None \<Rightarrow> None
      | Some r \<Rightarrow>
          (if takeWhile isSpace r = [] then None
           else (case strip_prefix_ci (js ''l'' @ idStr @ js '':level'') (dropWhile isSpace r) of
                   None \<Rightarrow> None
                 | Some r1 \<Rightarrow> anyLevel_at legalTail r1)))"

text \<open>\<open>@list l<id>:level\d\s*{[^{]*mso-level-number-format:\<close>\<close>

definition multiLevelNumberFormat_at :: "jsstring \<Rightarrow> jsstring \<Rightarrow> unit option" where
  "multiLevelNumberFormat_at idStr s =
     (case strip_prefix_ci (js ''@list l'' @ idStr @ js '':level'') s of
        None \<Rightarrow> None
      | Some r1 \<Rightarrow>
          anyLevel_at (\<lambda>t. strip_prefix_ci (js ''mso-level-number-format:'') t \<noteq> None) r1)"

text \<open>A template literal prints a missing id or level as \<open>undefined\<close>.\<close>

definition idString :: "jsstring option \<Rightarrow> jsstring" where
  "idString i = (case i of None \<Rightarrow> js ''undefined'' | Some x \<Rightarrow> x)"

definition indentString :: "nat option \<Rightarrow> jsstring" where
  "indentString i = (case i of None \<Rightarrow> js ''undefined'' | Some n \<Rightarrow> toString n)"

definition islegalStyleList :: "jsstring option \<Rightarrow> jsstring \<Rightarrow> bool" where
  "islegalStyleList i stylesString \<longleftrightarrow>
     find_first (legalStyleList_at (idString i)) stylesString \<noteq> None \<and>
     find_first (multiLevelNumberFormat_at (idString i)) stylesString = None"

definition listStyleMatch :: "jsstring option \<Rightarrow> nat option \<Rightarrow> jsstring \<Rightarrow> jsstring option" where
  "listStyleMatch i indent stylesString =
     find_first (listStyle_at (js ''@list l'' @ idString i @ js '':level'' @ indentString indent))
       stylesString"

text \<open>The value of \<open>mso-level-number-format\<close> in a rule block, trimmed; \<open>None\<close> when the
  pattern does not match or its group is empty.\<close>

definition listStyleTypeMatch :: "jsstring \<Rightarrow> jsstring option" where
  "listStyleTypeMatch block =
     (case find_first numberFormat_at block of
        None \<Rightarrow> None
      | Some v \<Rightarrow> (if v = [] then None else Some (trim v)))"

definition listStartIndexMatch :: "jsstring \<Rightarrow> nat option" where
  "listStartIndexMatch block =
     (case find_first startAt_at block of
        None \<Rightarrow> None
      | Some ds \<Rightarrow> (if ds = [] then None else Some (parseInt ds)))"

definition detectListStyle :: "document \<Rightarrow> candidate \<Rightarrow> jsstring \<Rightarrow> error + listStyle" where
  "detectListStyle d listLikeItem stylesString =
     (let legal = islegalStyleList (c_id listLikeItem) stylesString
      in case listStyleMatch (c_id listLikeItem) (c_indent listLikeItem) stylesString of
           None \<Rightarrow>
             Inr \<lparr>ls_type = js ''ol'', startIndex = None,
                  ls_style = mapListStyleDefinition (js ''decimal''), isLegalStyleList = legal\<rparr>
         | Some block \<Rightarrow>
             (let listStyleType =
                    (case listStyleTypeMatch block of None \<Rightarrow> js ''decimal'' | Some t \<Rightarrow> t);
                  type0 =
                    (case listStyleTypeMatch block of
                       None \<Rightarrow> js ''ol''
                     | Some t \<Rightarrow> (if t \<noteq> js ''bullet'' \<and> t \<noteq> js ''image'' then js ''ol''
                                  else js ''ul''));
                  type1 = (if legal then js ''ol'' else type0)
              in if listStyleType = js ''bullet'' then
                   (case findBulletedListStyle d (c_element listLikeItem) of
                      Inl e \<Rightarrow> Inl e
                    | Inr bulletedStyle \<Rightarrow>
                        Inr \<lparr>ls_type = type1, startIndex = None,
                             ls_style = mapListStyleDefinition
                               (case bulletedStyle of
                                  None \<Rightarrow> listStyleType
                                | Some b \<Rightarrow> (if b = [] then listStyleType else b)),
                             isLegalStyleList = legal\<rparr>)
                 else
                   Inr \<lparr>ls_type = type1, startIndex = listStartIndexMatch block,
                        ls_style = mapListStyleDefinition listStyleType,
                        isLegalStyleList = legal\<rparr>))"

text \<open>\<open>createNewEmptyList\<close>. \<open>list.style.setProperty\<close> on a new element writes the one
  declaration into its \<open>style\<close> attribute.\<close>

definition createNewEmptyList :: "document \<Rightarrow> listStyle \<Rightarrow> bool \<Rightarrow> document \<times> nat" where
  "createNewEmptyList d ls hasMultiLevelListPlugin =
     (let list = newElement (ls_type ls);
          list1 = (case ls_style ls of
                     None \<Rightarrow> list
                   | Some st \<Rightarrow> list\<lparr>styleAttr := Some (js ''list-style-type: '' @ st @ js '';'')\<rparr>);
          list2 = (case startIndex ls of
                     None \<Rightarrow> list1
                   | Some n \<Rightarrow> (if n > 1 then list1\<lparr>startAttr := Some (toString n)\<rparr> else list1));
          list3 = (if isLegalStyleList ls \<and> hasMultiLevelListPlugin
                   then list2\<lparr>classList := classList list2 @ [js ''legal-list'']\<rparr> else list2)
      in (d @ [list3], fresh d))"

section \<open>Finding the list item candidates\<close>

definition itemTags :: "jsstring list" where
  "itemTags = [js ''p'', js ''h1'', js ''h2'', js ''h3'', js ''h4'', js ''h5'', js ''h6'',
               js ''li'', js ''div'']"

text \<open>The body of the loop of \<open>findAllItemLikeElements\<close> for one element: the candidate
  it pushes, if any.\<close>

definition itemLike :: "document \<Rightarrow> nat \<Rightarrow> error + candidate option" where
  "itemLike d item =
     (if tag (nodes d item) \<notin> set itemTags \<or> \<not> isHTMLElement (nodes d item) then Inr None
      else (let style = convertStyleToObject
                          (case styleAttr (nodes d item) of None \<Rightarrow> [] | Some s \<Rightarrow> s)
            in if style (js ''mso-list'') = None then Inr None
               else (case parentElement d item of
                       None \<Rightarrow> Inr None
                     | Some p \<Rightarrow>
                         (case isList d p of
                            Inl e \<Rightarrow> Inl e
                          | Inr True \<Rightarrow> Inr None
                          | Inr False \<Rightarrow>
                              Inr (Some (listItemData.extend (getListItemData style)
                                           (candidate.fields item)))))))"

fun collectItems :: "document \<Rightarrow> nat list \<Rightarrow> error + candidate list" where
  "collectItems d [] = Inr []"
| "collectItems d (item # items) =
     (case itemLike d item of
        Inl e \<Rightarrow> Inl e
      | Inr r \<Rightarrow>
          (case collectItems d items of
             Inl e \<Rightarrow> Inl e
           | Inr res \<Rightarrow> Inr ((case r of None \<Rightarrow> [] | Some c \<Rightarrow> [c]) @ res)))"

definition findAllItemLikeElements :: "document \<Rightarrow> error + candidate list" where
  "findAllItemLikeElements d = collectItems d (querySelectorAll_star d)"

section \<open>The list reconstruction engine\<close>

record frame = candidate +
  listElement :: nat
  listItemElements :: "nat list"

text \<open>
  The stack is a JavaScript array: reading outside it gives \<open>undefined\<close>, assigning to
  \<open>length\<close> truncates it (or pads it with holes), a negative \<open>length\<close> is a RangeError, and
  assigning beyond the end leaves holes. A position holds \<open>Some\<close> frame, or \<open>None\<close> for a hole.
\<close>

definition js_get :: "'a option list \<Rightarrow> int \<Rightarrow> 'a option" where
  "js_get xs i = (if 0 \<le> i \<and> i < int (length xs) then xs ! nat i else None)"

definition js_set_length :: "'a option list \<Rightarrow> int \<Rightarrow> error + 'a option list" where
  "js_set_length xs n =
     (if n < 0 then Inl RangeError
      else Inr (take (nat n) xs @ replicate (nat n - length xs) None))"

definition js_set :: "'a option list \<Rightarrow> int \<Rightarrow> 'a \<Rightarrow> 'a option list" where
  "js_set xs i v =
     (if i < 0 then xs
      else if nat i < length xs then xs[nat i := Some v]
      else xs @ replicate (nat i - length xs) None @ [Some v])"

text \<open>A counter of \<open>encounteredLists\<close>: missing (\<open>undefined\<close>), a number, or \<open>NaN\<close>, which is
  what \<open>++\<close> makes of \<open>undefined\<close>.\<close>

datatype counter = Undefined | NaN | Num nat

definition truthy :: "counter \<Rightarrow> bool" where
  "truthy c = (case c of Num n \<Rightarrow> n \<noteq> 0 | _ \<Rightarrow> False)"

definition increment :: "counter \<Rightarrow> counter" where
  "increment c = (case c of Num n \<Rightarrow> Num (n + 1) | _ \<Rightarrow> NaN)"

record lstate =
  doc :: document
  stack :: "frame option list"
  encounteredLists :: "jsstring \<Rightarrow> counter"

definition isListContinuation :: "document \<Rightarrow> candidate \<Rightarrow> error + bool" where
  "isListContinuation d currentItem =
     (case previousSibling d (c_element currentItem) of
        None \<Rightarrow>
          (case parentElement d (c_element currentItem) of
             None \<Rightarrow> Inl TypeError
           | Some p \<Rightarrow> isList d p)
      | Some prev \<Rightarrow> isList d prev)"

fun index_of :: "nat list \<Rightarrow> nat \<Rightarrow> int" where
  "index_of [] n = - 1"
| "index_of (x # xs) n = (if x = n then 0 else (if index_of xs n < 0 then - 1 else index_of xs n + 1))"

text \<open>Lines 99 to 114: where the new list goes. With a stack that is not empty and no
  list item at the level above, the new list is attached nowhere.\<close>

definition insertNewList :: "document \<Rightarrow> frame option list \<Rightarrow> int \<Rightarrow> nat \<Rightarrow> nat \<Rightarrow> error + document" where
  "insertNewList d stk indent element newList =
     (if length stk = 0 then
        (case parentNode (nodes d element) of
           None \<Rightarrow> Inl TypeError
         | Some parent \<Rightarrow>
             (if index_of (children d parent) element + 1 = int (length (children d parent))
              then appendChild d parent newList
              else insertBefore d parent newList element))
      else (case js_get stk (indent - 1) of
              None \<Rightarrow> Inr d
            | Some parentFrame \<Rightarrow>
                (case listItemElements parentFrame of
                   [] \<Rightarrow> Inr d
                 | _ # _ \<Rightarrow> appendChild d (last (listItemElements parentFrame)) newList)))"

text \<open>Lines 87 to 94: a reopened top-level ordered list takes the running counter as its
  start index.\<close>

definition resumeStartIndex :: "listStyle \<Rightarrow> int \<Rightarrow> jsstring option \<Rightarrow> counter \<Rightarrow> listStyle" where
  "resumeStartIndex ls indent i cnt =
     (if indent = 0 \<and> ls_type ls = js ''ol'' \<and> i \<noteq> None \<and> truthy cnt
      then ls\<lparr>startIndex := (case cnt of Num n \<Rightarrow> Some n | _ \<Rightarrow> None)\<rparr>
      else ls)"

text \<open>\<open>listStyle.startIndex || 1\<close>\<close>

definition startIndexOr1 :: "listStyle \<Rightarrow> nat" where
  "startIndexOr1 ls = (case startIndex ls of None \<Rightarrow> 1 | Some n \<Rightarrow> (if n = 0 then 1 else n))"

text \<open>Line 86: a new list is required at a greater indentation, or when the list that
  is open at this indentation is of the other type.\<close>

definition needsNewList :: "document \<Rightarrow> frame option list \<Rightarrow> int \<Rightarrow> listStyle \<Rightarrow> bool" where
  "needsNewList d stk indent ls \<longleftrightarrow>
     indent > int (length stk) - 1 \<or>
     (case js_get stk indent of
        None \<Rightarrow> True
      | Some f \<Rightarrow> tag (nodes d (listElement f)) \<noteq> ls_type ls)"

text \<open>Lines 87 to 126: the new list is created (the multi-level list flag is \<open>false\<close>),
  inserted and written to the stack; at indentation 0 its counter is prepared.\<close>

definition createList :: "lstate \<Rightarrow> candidate \<Rightarrow> int \<Rightarrow> jsstring \<Rightarrow> listStyle \<Rightarrow> error + lstate" where
  "createList s item indent originalListId ls0 =
     (let ls = resumeStartIndex ls0 indent (c_id item) (encounteredLists s originalListId)
      in case createNewEmptyList (doc s) ls False of
           (d1, newList) \<Rightarrow>
             (case insertNewList d1 (stack s) indent (c_element item) newList of
                Inl e \<Rightarrow> Inl e
              | Inr d2 \<Rightarrow>
                  Inr \<lparr>doc = d2,
                       stack = js_set (stack s) indent
                                 (candidate.extend item (frame.fields newList [])),
                       encounteredLists =
                         (if indent = 0 \<and> c_id item \<noteq> None
                          then (encounteredLists s)(originalListId := Num (startIndexOr1 ls))
                          else encounteredLists s)\<rparr>))"

text \<open>Lines 84 to 127: the branch that creates a new list if one is required.\<close>

definition openList :: "jsstring \<Rightarrow> lstate \<Rightarrow> candidate \<Rightarrow> int \<Rightarrow> jsstring \<Rightarrow> error + lstate" where
  "openList stylesString s item indent originalListId =
     (case detectListStyle (doc s) item stylesString of
        Inl e \<Rightarrow> Inl e
      | Inr ls0 \<Rightarrow>
          (if needsNewList (doc s) (stack s) indent ls0
           then createList s item indent originalListId ls0
           else Inr s))"

definition removeMsoListIgnoreSpans :: "document \<Rightarrow> nat \<Rightarrow> document" where
  "removeMsoListIgnoreSpans d parentElem =
     foldl (\<lambda>d1 span.
              (case styleAttr (nodes d1 span) of
                 None \<Rightarrow> d1
               | Some style \<Rightarrow>
                   (if style \<noteq> [] \<and> includes_str style (js ''mso-list:Ignore'')
                    then removeFromParent d1 span else d1)))
       d (querySelectorAll_tag d parentElem (js ''span''))"

text \<open>Line 131: the candidate's element if it is a list item, else a new list item.\<close>

definition makeListItem :: "document \<Rightarrow> nat \<Rightarrow> document \<times> nat" where
  "makeListItem d element =
     (if tag (nodes d element) = js ''li'' then (d, element) else createElement d (js ''li''))"

text \<open>Lines 134 and 135: the list item is appended to the list of the frame at \<open>indent\<close>
  and recorded in that frame; nothing happens when there is no such frame.\<close>

definition attachListItem ::
    "document \<Rightarrow> frame option list \<Rightarrow> int \<Rightarrow> nat \<Rightarrow> error + document \<times> frame option list" where
  "attachListItem d stk indent listItem =
     (case js_get stk indent of
        None \<Rightarrow> Inr (d, stk)
      | Some f \<Rightarrow>
          (case appendChild d (listElement f) listItem of
             Inl e \<Rightarrow> Inl e
           | Inr d2 \<Rightarrow>
               Inr (d2, js_set stk indent
                          (f\<lparr>listItemElements := listItemElements f @ [listItem]\<rparr>))))"

text \<open>Lines 138 to 140: the counter of a top-level list with an id is incremented.\<close>

definition countListItem ::
    "(jsstring \<Rightarrow> counter) \<Rightarrow> int \<Rightarrow> jsstring option \<Rightarrow> jsstring \<Rightarrow> (jsstring \<Rightarrow> counter)" where
  "countListItem counters indent i originalListId =
     (if indent = 0 \<and> i \<noteq> None
      then counters(originalListId := increment (counters originalListId))
      else counters)"

text \<open>Lines 143 to 145: the candidate's element moves into a list item that is new.\<close>

definition moveIntoListItem :: "document \<Rightarrow> nat \<Rightarrow> nat \<Rightarrow> error + document" where
  "moveIntoListItem d listItem element =
     (if element \<noteq> listItem then appendChild d listItem element else Inr d)"

text \<open>Lines 130 to 147.\<close>

definition appendListItem :: "lstate \<Rightarrow> candidate \<Rightarrow> int \<Rightarrow> jsstring \<Rightarrow> error + lstate" where
  "appendListItem s item indent originalListId =
     (case makeListItem (doc s) (c_element item) of
        (d1, listItem) \<Rightarrow>
          (case attachListItem d1 (stack s) indent listItem of
             Inl e \<Rightarrow> Inl e
           | Inr (d2, stk2) \<Rightarrow>
               (case moveIntoListItem d2 listItem (c_element item) of
                  Inl e \<Rightarrow> Inl e
                | Inr d3 \<Rightarrow>
                    Inr \<lparr>doc = removeMsoListIgnoreSpans d3 (c_element item),
                         stack = stk2,
                         encounteredLists =
                           countListItem (encounteredLists s) indent (c_id item)
                             originalListId\<rparr>)))"

text \<open>Line 73: the normalized indentation.\<close>

definition normalizedIndent :: "nat \<Rightarrow> 'a list \<Rightarrow> int" where
  "normalizedIndent lvl stk = min (int lvl - 1) (int (length stk))"

definition frameId :: "frame option \<Rightarrow> jsstring option" where
  "frameId f = (case f of None \<Rightarrow> None | Some fr \<Rightarrow> c_id fr)"

text \<open>Lines 65 to 68: the stack is emptied unless the item continues the previous list.\<close>

definition resetStack :: "bool \<Rightarrow> frame option list \<Rightarrow> frame option list" where
  "resetStack continuation stk = (if \<not> continuation then [] else stk)"

text \<open>Lines 75 to 78: the stack is cut at \<open>indent\<close> when the list id changes there.\<close>

definition trimOnIdChange :: "frame option list \<Rightarrow> int \<Rightarrow> jsstring option \<Rightarrow> error + frame option list" where
  "trimOnIdChange stk indent i =
     (if indent < int (length stk) \<and> frameId (js_get stk indent) \<noteq> i
      then js_set_length stk indent else Inr stk)"

text \<open>Lines 80 to 128: at a lower indentation the stack is cut to \<open>indent + 1\<close> frames;
  otherwise a new list is opened if one is required.\<close>

definition trimOrOpen :: "jsstring \<Rightarrow> lstate \<Rightarrow> candidate \<Rightarrow> int \<Rightarrow> jsstring \<Rightarrow> error + lstate" where
  "trimOrOpen stylesString s item indent originalListId =
     (if indent < int (length (stack s)) - 1 then
        (case js_set_length (stack s) (indent + 1) of
           Inl e \<Rightarrow> Inl e
         | Inr stk2 \<Rightarrow> Inr (s\<lparr>stack := stk2\<rparr>))
      else openList stylesString s item indent originalListId)"

text \<open>The body of the main loop for one candidate (lines 64 to 148).\<close>

definition processItem :: "jsstring \<Rightarrow> lstate \<Rightarrow> candidate \<Rightarrow> error + lstate" where
  "processItem stylesString s item =
     (case c_indent item of
        None \<Rightarrow> Inr s
      | Some lvl \<Rightarrow>
          (case isListContinuation (doc s) item of
             Inl e \<Rightarrow> Inl e
           | Inr continuation \<Rightarrow>
               (let stk0 = resetStack continuation (stack s);
                    originalListId = idString (c_id item) @ js '':'' @ toString lvl;
                    indent = normalizedIndent lvl stk0
                in case trimOnIdChange stk0 indent (c_id item) of
                     Inl e \<Rightarrow> Inl e
                   | Inr stk1 \<Rightarrow>
                       (case trimOrOpen stylesString (s\<lparr>stack := stk1\<rparr>) item indent
                               originalListId of
                          Inl e \<Rightarrow> Inl e
                        | Inr s2 \<Rightarrow> appendListItem s2 item indent originalListId))))"

fun processItems :: "jsstring \<Rightarrow> lstate \<Rightarrow> candidate list \<Rightarrow> error + lstate" where
  "processItems stylesString s [] = Inr s"
| "processItems stylesString s (item # items) =
     (case processItem stylesString s item of
        Inl e \<Rightarrow> Inl e
      | Inr s1 \<Rightarrow> processItems stylesString s1 items)"

definition initialState :: "document \<Rightarrow> lstate" where
  "initialState d = \<lparr>doc = d, stack = [], encounteredLists = (\<lambda>_. Undefined)\<rparr>"

definition transformListItemLikeLElementsIntoLists :: "document \<Rightarrow> jsstring \<Rightarrow> error + document" where
  "transformListItemLikeLElementsIntoLists d stylesString =
     (case findAllItemLikeElements d of
        Inl e \<Rightarrow> Inl e
      | Inr itemLikeElements \<Rightarrow>
          (if itemLikeElements = [] then Inr d
           else (case processItems stylesString (initialState d) itemLikeElements of
                   Inl e \<Rightarrow> Inl e
                 | Inr s \<Rightarrow> Inr (doc s))))"

section \<open>Attribute cleanup\<close>

text \<open>
  The loop over \<open>item.classList\<close> removes a class from the list it is iterating. The
  iterator of a token list goes by index over the live list, so after a removal the
  class that moves into the freed position is not visited.
\<close>

fun removeMsoClasses :: "jsstring list \<Rightarrow> jsstring list" where
  "removeMsoClasses [] = []"
| "removeMsoClasses [c] = (if matchesMso c then [] else [c])"
| "removeMsoClasses (c # c' # cs) =
     (if matchesMso c then c' # removeMsoClasses cs else c # removeMsoClasses (c' # cs))"

definition styleKey :: "jsstring \<Rightarrow> jsstring" where
  "styleKey property = hd (split_on 58 property)"

definition removeMSOStylesOf :: "jsstring \<Rightarrow> jsstring" where
  "removeMSOStylesOf currentStyle =
     join_with [59]
       (filter (\<lambda>property. \<not> matchesMso (toLowerCase (styleKey property)))
          (map trim (split_on 59 currentStyle)))"

definition removeMSOStyles :: "document \<Rightarrow> nat \<Rightarrow> document" where
  "removeMSOStyles d element =
     d[element := (nodes d element)
         \<lparr>styleAttr := Some (removeMSOStylesOf
             (case styleAttr (nodes d element) of None \<Rightarrow> [] | Some s \<Rightarrow> s))\<rparr>]"

text \<open>\<open>isElementEmpty\<close>: no text content, and an \<open>innerHTML\<close> that trims to nothing. With no
  text content, \<open>innerHTML\<close> is empty iff every child is a text node, since an element or
  a comment is never serialized to the empty string.\<close>

definition isElementEmpty :: "document \<Rightarrow> nat \<Rightarrow> bool" where
  "isElementEmpty d element \<longleftrightarrow>
     textContent d element = [] \<and>
     list_all (\<lambda>k. kind (nodes d k) = TextNode) (childNodes (nodes d element))"

definition toUnwrap :: "document \<Rightarrow> nat \<Rightarrow> bool" where
  "toUnwrap d item \<longleftrightarrow>
     isHTMLElement (nodes d item) \<and>
     (tag (nodes d item) = js ''w:sdt'' \<or>
      tag (nodes d item) = js ''w:sdtpr'' \<and> isElementEmpty d item \<or>
      tag (nodes d item) = js ''o:p'' \<and> isElementEmpty d item)"

text \<open>The first loop of \<open>removeMSAttributes\<close>: the document after the loop and the
  elements to unwrap, in the order they were pushed.\<close>

fun cleanItems :: "document \<Rightarrow> nat list \<Rightarrow> document \<times> nat list" where
  "cleanItems d [] = (d, [])"
| "cleanItems d (item # items) =
     (let d1 = d[item := (nodes d item)
                    \<lparr>classList := removeMsoClasses (classList (nodes d item))\<rparr>];
          d2 = (if isHTMLElement (nodes d1 item) then removeMSOStyles d1 item else d1);
          rest = cleanItems d2 items
      in (fst rest, (if toUnwrap d2 item then [item] else []) @ snd rest))"

fun unwrapAll :: "document \<Rightarrow> nat list \<Rightarrow> error + document" where
  "unwrapAll d [] = Inr d"
| "unwrapAll d (item # items) =
     (case parentNode (nodes d item) of
        None \<Rightarrow> Inl TypeError
      | Some _ \<Rightarrow> unwrapAll (removeFromParent d item) items)"

definition removeMSAttributesOn :: "document \<Rightarrow> nat list \<Rightarrow> error + document" where
  "removeMSAttributesOn d items = unwrapAll (fst (cleanItems d items)) (snd (cleanItems d items))"

definition removeMSAttributes :: "document \<Rightarrow> error + document" where
  "removeMSAttributes d = removeMSAttributesOn d (querySelectorAll_star d)"

section \<open>normalize\<close>

text \<open>
  \<open>normalize\<close> on the document that \<open>DOMParser\<close> makes of \<open>bodyString\<close>, with the
  \<open>stylesString\<close> of \<open>parseHtml\<close>: the two passes over the tree. The result is the tree
  whose body is then serialized. Parsing and serializing HTML belong to the platform.
\<close>

definition normalize_doc :: "document \<Rightarrow> jsstring \<Rightarrow> error + document" where
  "normalize_doc d stylesString =
     (case transformListItemLikeLElementsIntoLists d stylesString of
        Inl e \<Rightarrow> Inl e
      | Inr d1 \<Rightarrow> removeMSAttributes d1)"

section \<open>Spacerun spans in the tree\<close>

text \<open>
  \<open>normalizeSpacerunSpans\<close> selects \<open>span[style*=spacerun]\<close> and assigns \<open>innerText\<close>.
  In a document that is not rendered, as the one of \<open>DOMParser\<close>, the \<open>innerText\<close> getter
  returns the text content. The setter replaces the children by one new text node, or
  by nothing when the text is empty: every child loses its parent, the element its
  children, and the new text node becomes the only child.
\<close>

definition orphan :: "document \<Rightarrow> nat \<Rightarrow> document" where
  "orphan d c = d[c := (nodes d c)\<lparr>parentNode := None\<rparr>]"

definition setInnerText :: "document \<Rightarrow> nat \<Rightarrow> jsstring \<Rightarrow> document" where
  "setInnerText d element text =
     (let d1 = foldl orphan d (childNodes (nodes d element));
          d2 = d1[element := (nodes d1 element)\<lparr>childNodes := []\<rparr>]
      in if text = [] then d2
         else (d2 @ [(newText text)\<lparr>parentNode := Some element\<rparr>])
                [element := (nodes d2 element)\<lparr>childNodes := [fresh d2]\<rparr>])"

definition isSpacerunSpan :: "document \<Rightarrow> nat \<Rightarrow> bool" where
  "isSpacerunSpan d k \<longleftrightarrow>
     isElement d k \<and> tag (nodes d k) = js ''span'' \<and>
     (case styleAttr (nodes d k) of None \<Rightarrow> False | Some s \<Rightarrow> includes_str s (js ''spacerun''))"

definition normalizeSpacerunSpan :: "document \<Rightarrow> nat \<Rightarrow> document" where
  "normalizeSpacerunSpan d el = setInnerText d el (nbspSpaces (length (textContent d el)))"

definition normalizeSpacerunSpans :: "document \<Rightarrow> document" where
  "normalizeSpacerunSpans d =
     foldl normalizeSpacerunSpan d
       (filter (isSpacerunSpan d) (descendants (fresh d) d 0))"

text \<open>\<open>normalize(normalize(x))\<close>: the second call parses the output of the first; its tree
  is the tree the first call serialized, and it has a style sheet text of its own.\<close>

definition normalize_twice :: "document \<Rightarrow> jsstring \<Rightarrow> jsstring \<Rightarrow> error + document" where
  "normalize_twice d stylesString stylesString2 =
     (case normalize_doc d stylesString of
        Inl e \<Rightarrow> Inl e
      | Inr d1 \<Rightarrow> normalize_doc d1 stylesString2)"

section \<open>Example documents\<close>

text \<open>Nodes as the parser makes them: an element with its \<open>style\<close> attribute, parent and
  children; a text node; the document node.\<close>

definition elementNode :: "jsstring \<Rightarrow> jsstring option \<Rightarrow> nat option \<Rightarrow> nat list \<Rightarrow> dnode" where
  "elementNode t st p ks = (newElement t)\<lparr>styleAttr := st, parentNode := p, childNodes := ks\<rparr>"

definition textNode :: "jsstring \<Rightarrow> nat \<Rightarrow> dnode" where
  "textNode text p = (newText text)\<lparr>parentNode := Some p\<rparr>"

definition documentNode :: "nat list \<Rightarrow> dnode" where
  "documentNode ks = (newText [])\<lparr>kind := DocumentNode, childNodes := ks\<rparr>"

text \<open>The head of every example: the document node 0, \<open>html\<close> 1, \<open>head\<close> 2, and \<open>body\<close> 3
  with the given children.\<close>

definition docHead :: "nat list \<Rightarrow> document" where
  "docHead bodyChildren =
     [documentNode [1], elementNode (js ''html'') None (Some 0) [2, 3],
      elementNode (js ''head'') None (Some 1) [],
      elementNode (js ''body'') None (Some 1) bodyChildren]"

text \<open>\<open><p style="mso-list:l0 level1 lfo1">a</p> <p style="mso-list:l0 level1 lfo1">b</p>\<close>:
  two list paragraphs with one space between them.\<close>

definition docTextBetween :: document where
  "docTextBetween = docHead [4, 6, 7] @
     [elementNode (js ''p'') (Some (js ''mso-list:l0 level1 lfo1'')) (Some 3) [5],
      textNode (js ''a'') 4,
      textNode (js '' '') 3,
      elementNode (js ''p'') (Some (js ''mso-list:l0 level1 lfo1'')) (Some 3) [8],
      textNode (js ''b'') 7]"

text \<open>\<open>intro<p style="mso-list:l0 level1 lfo1">a</p>\<close>: text, then one list paragraph.\<close>

definition docTextBefore :: document where
  "docTextBefore = docHead [4, 5] @
     [textNode (js ''intro'') 3,
      elementNode (js ''p'') (Some (js ''mso-list:l0 level1 lfo1'')) (Some 3) [6],
      textNode (js ''a'') 5]"

text \<open>Two list paragraphs, a plain paragraph, and a third list paragraph of the same list:
  \<open><p style="mso-list:l0 level1 lfo1">a</p><p style="mso-list:l0 level1 lfo1">b</p><p>x</p><p style="mso-list:l0 level1 lfo1">c</p>\<close>,
  with a style sheet that starts the list at 5.\<close>

definition docInterrupted :: document where
  "docInterrupted = docHead [4, 6, 8, 10] @
     [elementNode (js ''p'') (Some (js ''mso-list:l0 level1 lfo1'')) (Some 3) [5],
      textNode (js ''a'') 4,
      elementNode (js ''p'') (Some (js ''mso-list:l0 level1 lfo1'')) (Some 3) [7],
      textNode (js ''b'') 6,
      elementNode (js ''p'') None (Some 3) [9],
      textNode (js ''x'') 8,
      elementNode (js ''p'') (Some (js ''mso-list:l0 level1 lfo1'')) (Some 3) [11],
      textNode (js ''c'') 10]"

definition sheetStartAt5 :: jsstring where
  "sheetStartAt5 =
     js ''@list l0:level1 {mso-level-number-format:decimal; mso-level-start-at:5;}''"

text \<open>\<open><p style="mso-list:l0 level1 lfo1">text<span>o</span></p>\<close>: the first child is a
  bare text node, a span with the text \<open>o\<close> follows. The style sheet makes the list a
  bullet list.\<close>

definition docTextFirst :: document where
  "docTextFirst = docHead [4] @
     [elementNode (js ''p'') (Some (js ''mso-list:l0 level1 lfo1'')) (Some 3) [5, 6],
      textNode (js ''text'') 4,
      elementNode (js ''span'') None (Some 4) [7],
      textNode (js ''o'') 6]"

definition sheetBullet :: jsstring where
  "sheetBullet = js ''@list l0:level1 {mso-level-number-format: bullet;}''"

text \<open>A list paragraph whose marker span holds a middle dot (183) and a non-breaking
  space, followed by the text of the item.\<close>

definition docMiddleDot :: document where
  "docMiddleDot = docHead [4] @
     [elementNode (js ''p'') (Some (js ''mso-list:l0 level1 lfo1'')) (Some 3) [5, 7],
      elementNode (js ''span'') (Some (js ''mso-list:Ignore'')) (Some 4) [6],
      textNode [183, 160] 5,
      textNode (js ''item'') 4]"

text \<open>The candidate that \<open>findAllItemLikeElements\<close> makes of its paragraph.\<close>

definition itemMiddleDot :: candidate where
  "itemMiddleDot =
     \<lparr>c_id = Some (js ''0''), c_order = Some (js ''1''), c_indent = Some 1, c_element = 4\<rparr>"

text \<open>\<open><p class="xmso">x</p>\<close> and \<open><p class="legal-list">x</p>\<close>\<close>

definition docClass :: "jsstring \<Rightarrow> document" where
  "docClass c = docHead [4] @
     [(elementNode (js ''p'') None (Some 3) [5])\<lparr>classList := [c]\<rparr>,
      textNode (js ''x'') 4]"

text \<open>\<open><p>a<span style="mso-spacerun:yes"> </span>b</p>\<close>: a spacerun span with one space.\<close>

definition docSpacerun :: document where
  "docSpacerun = docHead [4] @
     [elementNode (js ''p'') None (Some 3) [5, 6, 8],
      textNode (js ''a'') 4,
      elementNode (js ''span'') (Some (js ''mso-spacerun:yes'')) (Some 4) [7],
      textNode (js '' '') 6,
      textNode (js ''b'') 4]"

text \<open>\<open><p class="MsoNormal keep" style="color: red; mso-bidi-font-family: Arial; font-size: 12pt">x</p>\<close>\<close>

definition docMsoAttrs :: document where
  "docMsoAttrs = docHead [4] @
     [(elementNode (js ''p'')
         (Some (js ''color: red; mso-bidi-font-family: Arial; font-size: 12pt'')) (Some 3) [5])
        \<lparr>classList := [js ''MsoNormal'', js ''keep'']\<rparr>,
      textNode (js ''x'') 4]"

text \<open>The candidate of list 0 at a level, for the paragraph at a node.\<close>

definition itemOf :: "nat \<Rightarrow> nat \<Rightarrow> candidate" where
  "itemOf element lvl =
     \<lparr>c_id = Some (js ''0''), c_order = Some (js ''1''), c_indent = Some lvl, c_element = element\<rparr>"

text \<open>Three paragraphs of list 0, at the levels 1, 2 and 1.\<close>

definition docNested :: document where
  "docNested = docHead [4, 6, 8] @
     [elementNode (js ''p'') (Some (js ''mso-list:l0 level1 lfo1'')) (Some 3) [5],
      textNode (js ''a'') 4,
      elementNode (js ''p'') (Some (js ''mso-list:l0 level2 lfo1'')) (Some 3) [7],
      textNode (js ''b'') 6,
      elementNode (js ''p'') (Some (js ''mso-list:l0 level1 lfo1'')) (Some 3) [9],
      textNode (js ''c'') 8]"

text \<open>\<open><p class="MsoNormal MsoListParagraph">x</p>\<close>\<close>

definition docTwoMso :: document where
  "docTwoMso = docHead [4] @
     [(elementNode (js ''p'') None (Some 3) [5])
        \<lparr>classList := [js ''MsoNormal'', js ''MsoListParagraph'']\<rparr>,
      textNode (js ''x'') 4]"

section \<open>Notions for the properties\<close>

text \<open>The fields of a node that the tree operations (append, insert, remove) leave
  alone: everything but its children and its parent.\<close>

definition attrs :: "dnode \<Rightarrow> dnode" where
  "attrs x = x\<lparr>childNodes := [], parentNode := None\<rparr>"

text \<open>\<open>extends d d'\<close>: the document \<open>d'\<close> has the nodes of \<open>d\<close> with their tags, attributes
  and data, and further nodes that carry no class.\<close>

definition extends :: "document \<Rightarrow> document \<Rightarrow> bool" where
  "extends d d' \<longleftrightarrow>
     length d \<le> length d' \<and>
     (\<forall>n<length d. attrs (nodes d' n) = attrs (nodes d n)) \<and>
     (\<forall>n\<ge>length d. classList (nodes d' n) = [])"

text \<open>What the first loop of \<open>removeMSAttributes\<close> makes of one element.\<close>

definition cleanNode :: "dnode \<Rightarrow> dnode" where
  "cleanNode x =
     (let y = x\<lparr>classList := removeMsoClasses (classList x)\<rparr>
      in if isHTMLElement x
         then y\<lparr>styleAttr := Some (removeMSOStylesOf
                   (case styleAttr x of None \<Rightarrow> [] | Some s \<Rightarrow> s))\<rparr>
         else y)"

text \<open>The declarations of an inline style: the pieces between semicolons, trimmed;
  and those of them that \<open>removeMSOStyles\<close> keeps.\<close>

definition declarations :: "jsstring \<Rightarrow> jsstring list" where
  "declarations s = map trim (split_on 59 s)"

definition keptDeclarations :: "jsstring \<Rightarrow> jsstring list" where
  "keptDeclarations s =
     filter (\<lambda>p. \<not> matchesMso (toLowerCase (styleKey p))) (declarations s)"

text \<open>\<open>getAttribute('style') || ''\<close>\<close>

definition styleText :: "dnode \<Rightarrow> jsstring" where
  "styleText x = (case styleAttr x of None \<Rightarrow> [] | Some s \<Rightarrow> s)"

text \<open>What a call that returned left at a node; \<open>None\<close> when the call threw.\<close>

definition classListAfter :: "error + document \<Rightarrow> nat \<Rightarrow> jsstring list option" where
  "classListAfter r n = (case r of Inl e \<Rightarrow> None | Inr d \<Rightarrow> Some (classList (nodes d n)))"

definition tagAfter :: "error + document \<Rightarrow> nat \<Rightarrow> jsstring option" where
  "tagAfter r n = (case r of Inl e \<Rightarrow> None | Inr d \<Rightarrow> Some (tag (nodes d n)))"

definition startAttrAfter :: "error + document \<Rightarrow> nat \<Rightarrow> jsstring option option" where
  "startAttrAfter r n = (case r of Inl e \<Rightarrow> None | Inr d \<Rightarrow> Some (startAttr (nodes d n)))"

definition styleAttrAfter :: "error + document \<Rightarrow> nat \<Rightarrow> jsstring option option" where
  "styleAttrAfter r n = (case r of Inl e \<Rightarrow> None | Inr d \<Rightarrow> Some (styleAttr (nodes d n)))"

section \<open>Notions for the list stack\<close>

text \<open>A stack is dense when it has no hole; in the code a hole reads as \<open>undefined\<close>.\<close>

definition dense :: "'a option list \<Rightarrow> bool" where
  "dense stk \<longleftrightarrow> None \<notin> set stk"

text \<open>What \<open>getListItemData\<close> ensures of a candidate: without a list id the level is
  missing or 1.\<close>

definition itemOfData :: "candidate \<Rightarrow> bool" where
  "itemOfData item \<longleftrightarrow> (c_id item = None \<longrightarrow> c_indent item = None \<or> c_indent item = Some 1)"

text \<open>The \<open>start\<close> attribute that \<open>createNewEmptyList\<close> writes for a descriptor.\<close>

definition startAttrFor :: "listStyle \<Rightarrow> jsstring option" where
  "startAttrFor ls =
     (case startIndex ls of None \<Rightarrow> None | Some n \<Rightarrow> if n > 1 then Some (toString n) else None)"

text \<open>Two frames are the same frame when they differ at most in the list items they have
  collected; a frame was opened for a candidate when it holds the data of that candidate.\<close>

definition sameFrame :: "frame \<Rightarrow> frame \<Rightarrow> bool" where
  "sameFrame f0 f \<longleftrightarrow> f = f0\<lparr>listItemElements := listItemElements f\<rparr>"

definition openedFor :: "candidate \<Rightarrow> frame \<Rightarrow> bool" where
  "openedFor item f \<longleftrightarrow>
     f = candidate.extend item (frame.fields (listElement f) (listItemElements f))"

section \<open>Evaluation\<close>

text \<open>The defining equations, for evaluating the model on a concrete document.\<close>

lemmas model_defs =
  js_def isSpace_def isDigit_def isWordChar_def lowerAscii_def includes_str_def trim_def
  toLowerCase_def parseInt_def nbspSpaces_def spanOpen_at_def safariSpan_at_def
  safariReplacement_def matchesMso_def convertStyleToObject_def idMatch_def digitsAfter_at_def
  orderMatch_def indentMatch_def getListItemData_def newElement_def newText_def nodes_def
  fresh_def isElement_def parentElement_def previousSibling_def children_def
  querySelectorAll_star_def querySelectorAll_tag_def textContent_def isList_def
  removeFromParent_def appendChild_def insertBefore_def createElement_def
  findListMarkerNode_def bulletOfMarker_def findBulletedListStyle_def
  mapListStyleDefinition_def listStyle_at_def numberFormat_at_def startAt_at_def
  anyLevel_at_def legalTail_def legalStyleList_at_def multiLevelNumberFormat_at_def
  idString_def indentString_def islegalStyleList_def listStyleMatch_def listStyleTypeMatch_def
  listStartIndexMatch_def detectListStyle_def createNewEmptyList_def itemTags_def itemLike_def
  findAllItemLikeElements_def js_get_def js_set_length_def js_set_def truthy_def increment_def
  isListContinuation_def insertNewList_def resumeStartIndex_def startIndexOr1_def openList_def
  needsNewList_def createList_def makeListItem_def attachListItem_def countListItem_def
  moveIntoListItem_def trimOrOpen_def
  removeMsoListIgnoreSpans_def appendListItem_def normalizedIndent_def frameId_def
  resetStack_def trimOnIdChange_def processItem_def initialState_def
  transformListItemLikeLElementsIntoLists_def styleKey_def removeMSOStylesOf_def
  removeMSOStyles_def isElementEmpty_def toUnwrap_def removeMSAttributesOn_def
  removeMSAttributes_def normalize_doc_def normalize_twice_def orphan_def setInnerText_def
  isSpacerunSpan_def normalizeSpacerunSpan_def normalizeSpacerunSpans_def
  listItemData.defs candidate.defs frame.defs Let_def toString.simps
  elementNode_def textNode_def documentNode_def docHead_def
  styleText_def keptDeclarations_def declarations_def classListAfter_def tagAfter_def
  startAttrAfter_def styleAttrAfter_def

section \<open>What the tree operations preserve\<close>

lemma attrs_simps [simp]:
  "attrs (x\<lparr>childNodes := ks\<rparr>) = attrs x"
  "attrs (x\<lparr>parentNode := p\<rparr>) = attrs x"
  by (simp_all add: attrs_def)

lemma attrs_sel [simp]:
  "classList (attrs x) = classList x" "startAttr (attrs x) = startAttr x"
  "tag (attrs x) = tag x" "kind (attrs x) = kind x" "styleAttr (attrs x) = styleAttr x"
  "isHTMLElement (attrs x) = isHTMLElement x" "typeAttr (attrs x) = typeAttr x"
  "nodeData (attrs x) = nodeData x"
  by (simp_all add: attrs_def)

lemma attrs_eqD:
  assumes "attrs x = attrs y"
  shows "classList x = classList y" "startAttr x = startAttr y" "tag x = tag y"
    "kind x = kind y" "styleAttr x = styleAttr y" "isHTMLElement x = isHTMLElement y"
    "typeAttr x = typeAttr y" "nodeData x = nodeData y"
  using assms attrs_sel by metis+

lemma nodes_update: "nodes (d[p := x]) n = (if n = p \<and> p < length d then x else nodes d n)"
  by (simp add: nodes_def)

lemma nodes_append: "nodes (d @ [x]) n = (if n = length d then x else nodes d n)"
  by (auto simp: nodes_def nth_append newText_def)

lemma nodes_beyond: "length d \<le> n \<Longrightarrow> classList (nodes d n) = []"
  by (simp add: nodes_def newText_def)

lemma extends_refl: "extends d d"
  by (simp add: extends_def nodes_beyond)

lemma extends_trans: "extends d d1 \<Longrightarrow> extends d1 d2 \<Longrightarrow> extends d d2"
  unfolding extends_def
  by (metis (no_types, lifting) attrs_eqD(1) le_trans not_le order.strict_trans2)

lemma extends_removeFromParent: "extends d (removeFromParent d n)"
  by (auto simp: extends_def removeFromParent_def nodes_update nodes_beyond split: option.splits)

lemma length_removeFromParent [simp]: "length (removeFromParent d n) = length d"
  by (simp add: removeFromParent_def split: option.splits)

lemma extends_update_structure:
  "extends d d1 \<Longrightarrow> attrs x = attrs (nodes d1 p) \<Longrightarrow> extends d (d1[p := x])"
  by (auto simp: extends_def nodes_update dest: attrs_eqD(1))

lemma extends_appendChild: "appendChild d p c = Inr d' \<Longrightarrow> extends d d'"
  by (auto simp: appendChild_def Let_def nodes_update split: if_splits
      intro!: extends_update_structure extends_removeFromParent)

lemma extends_insertBefore: "insertBefore d p c r = Inr d' \<Longrightarrow> extends d d'"
  by (auto simp: insertBefore_def Let_def nodes_update split: if_splits
      intro!: extends_update_structure extends_removeFromParent)

lemma extends_createElement: "extends d (fst (createElement d t))"
  by (auto simp: createElement_def extends_def nodes_append nodes_beyond newElement_def)

lemma extends_createNewEmptyList: "extends d (fst (createNewEmptyList d ls False))"
  by (auto simp: createNewEmptyList_def Let_def extends_def nodes_append nodes_beyond newElement_def
       split: option.splits)


lemma extends_foldl:
  assumes "\<And>d x. extends d (f d x)"
  shows "extends d (foldl f d xs)"
proof (induction xs arbitrary: d)
  case Nil
  show ?case by (simp add: extends_refl)
next
  case (Cons x xs)
  have "extends d (f d x)" by (rule assms)
  moreover have "extends (f d x) (foldl f (f d x) xs)" by (rule Cons.IH)
  ultimately show ?case by (auto intro: extends_trans)
qed

lemma extends_removeMsoListIgnoreSpans: "extends d (removeMsoListIgnoreSpans d e)"
  unfolding removeMsoListIgnoreSpans_def
  by (rule extends_foldl) (auto simp: extends_refl extends_removeFromParent split: option.splits)

lemma extends_insertNewList: "insertNewList d stk indent e l = Inr d' \<Longrightarrow> extends d d'"
  by (auto simp: insertNewList_def extends_refl split: if_splits option.splits list.splits
      dest: extends_appendChild extends_insertBefore)

lemma extends_createNewEmptyList_eq:
  "createNewEmptyList d ls False = (d1, n) \<Longrightarrow> extends d d1"
  using extends_createNewEmptyList [of d ls] by simp

lemma extends_makeListItem: "makeListItem d e = (d1, n) \<Longrightarrow> extends d d1"
  using extends_createElement [of d "js ''li''"]
  by (auto simp: makeListItem_def extends_refl split: if_splits)

lemma extends_attachListItem:
  "attachListItem d stk indent li = Inr (d2, stk2) \<Longrightarrow> extends d d2"
  by (auto simp: attachListItem_def extends_refl split: option.splits sum.splits
      dest: extends_appendChild)

lemma extends_moveIntoListItem: "moveIntoListItem d li e = Inr d2 \<Longrightarrow> extends d d2"
  by (auto simp: moveIntoListItem_def extends_refl split: if_splits dest: extends_appendChild)

lemma extends_createList:
  assumes "createList s item indent key ls0 = Inr s'"
  shows "extends (doc s) (doc s')"
proof -
  from assms obtain d1 n where
      c: "createNewEmptyList (doc s)
            (resumeStartIndex ls0 indent (c_id item) (encounteredLists s key)) False = (d1, n)"
      and i: "insertNewList d1 (stack s) indent (c_element item) n = Inr (doc s')"
    unfolding createList_def Let_def by (auto split: prod.splits sum.splits)
  show ?thesis
    using extends_createNewEmptyList_eq [OF c] extends_insertNewList [OF i]
    by (rule extends_trans)
qed

lemma extends_openList: "openList ss s item indent key = Inr s' \<Longrightarrow> extends (doc s) (doc s')"
  by (auto simp: openList_def extends_refl split: sum.splits if_splits dest: extends_createList)

lemma extends_trimOrOpen:
  "trimOrOpen ss s item indent key = Inr s' \<Longrightarrow> extends (doc s) (doc s')"
  by (auto simp: trimOrOpen_def extends_refl split: sum.splits if_splits dest: extends_openList)

lemma extends_appendListItem:
  assumes "appendListItem s item indent key = Inr s'"
  shows "extends (doc s) (doc s')"
proof -
  from assms obtain d1 li d2 stk2 d3 where
      m: "makeListItem (doc s) (c_element item) = (d1, li)"
      and a: "attachListItem d1 (stack s) indent li = Inr (d2, stk2)"
      and v: "moveIntoListItem d2 li (c_element item) = Inr d3"
      and s': "doc s' = removeMsoListIgnoreSpans d3 (c_element item)"
    unfolding appendListItem_def by (auto split: prod.splits sum.splits)
  have "extends (doc s) d3"
    using extends_makeListItem [OF m] extends_attachListItem [OF a]
      extends_moveIntoListItem [OF v]
    by (blast intro: extends_trans)
  then show ?thesis
    unfolding s' using extends_removeMsoListIgnoreSpans by (blast intro: extends_trans)
qed

lemma extends_processItem:
  assumes "processItem ss s item = Inr s'"
  shows "extends (doc s) (doc s')"
proof (cases "c_indent item")
  case None
  with assms show ?thesis by (simp add: processItem_def extends_refl)
next
  case (Some lvl)
  with assms obtain stk1 s2 key indent where
      t: "trimOrOpen ss (s\<lparr>stack := stk1\<rparr>) item indent key = Inr s2"
      and a: "appendListItem s2 item indent key = Inr s'"
    unfolding processItem_def Let_def by (auto split: sum.splits)
  show ?thesis
    using extends_trimOrOpen [OF t] extends_appendListItem [OF a]
    by (auto intro: extends_trans)
qed

lemma extends_processItems: "processItems ss s items = Inr s' \<Longrightarrow> extends (doc s) (doc s')"
proof (induction items arbitrary: s)
  case Nil
  then show ?case by (simp add: extends_refl)
next
  case (Cons item items)
  then show ?case
    by (auto split: sum.splits dest!: extends_processItem intro: extends_trans)
qed

lemma extends_transform:
  "transformListItemLikeLElementsIntoLists d ss = Inr d' \<Longrightarrow> extends d d'"
  by (auto simp: transformListItemLikeLElementsIntoLists_def initialState_def extends_refl
      split: sum.splits if_splits dest!: extends_processItems)

section \<open>The cleanup pass, node by node\<close>

lemma removeMsoClasses_subset: "set (removeMsoClasses cs) \<subseteq> set cs"
  by (induction cs rule: removeMsoClasses.induct) auto

lemma removeMsoClasses_keeps:
  "c \<in> set cs \<Longrightarrow> \<not> matchesMso c \<Longrightarrow> c \<in> set (removeMsoClasses cs)"
  by (induction cs rule: removeMsoClasses.induct) auto

lemma length_removeMSOStyles [simp]: "length (removeMSOStyles d e) = length d"
  by (simp add: removeMSOStyles_def)

lemma length_cleanItems [simp]: "length (fst (cleanItems d items)) = length d"
  by (induction items arbitrary: d) (simp_all add: Let_def)

lemma cleanItems_other:
  "n \<notin> set items \<Longrightarrow> nodes (fst (cleanItems d items)) n = nodes d n"
  by (induction items arbitrary: d)
     (auto simp: Let_def nodes_update removeMSOStyles_def)

lemma cleanItems_node:
  "distinct items \<Longrightarrow> n \<in> set items \<Longrightarrow> n < length d \<Longrightarrow>
   nodes (fst (cleanItems d items)) n = cleanNode (nodes d n)"
proof (induction items arbitrary: d)
  case Nil
  then show ?case by simp
next
  case (Cons item items)
  show ?case
  proof (cases "n = item")
    case True
    then have "n \<notin> set items" using Cons.prems by simp
    then show ?thesis
      using True Cons.prems(3)
      by (simp add: Let_def cleanItems_other nodes_update removeMSOStyles_def cleanNode_def)
  next
    case False
    then show ?thesis
      using Cons
      by (simp add: Let_def nodes_update removeMSOStyles_def)
  qed
qed

lemma attrs_removeFromParent: "attrs (nodes (removeFromParent d k) n) = attrs (nodes d n)"
  by (auto simp: removeFromParent_def nodes_update split: option.splits)

lemma attrs_unwrapAll: "unwrapAll d items = Inr d' \<Longrightarrow> attrs (nodes d' n) = attrs (nodes d n)"
  by (induction items arbitrary: d) (auto split: option.splits simp: attrs_removeFromParent)

lemma removeMSAttributesOn_node:
  assumes "removeMSAttributesOn d items = Inr d'" "distinct items" "n \<in> set items" "n < length d"
  shows "attrs (nodes d' n) = attrs (cleanNode (nodes d n))"
  using assms attrs_unwrapAll [of "fst (cleanItems d items)" "snd (cleanItems d items)" d' n]
  by (simp add: removeMSAttributesOn_def cleanItems_node)

lemma cleanItems_classes:
  "set (classList (nodes (fst (cleanItems d items)) n)) \<subseteq> set (classList (nodes d n))"
proof (induction items arbitrary: d)
  case Nil
  show ?case by simp
next
  case (Cons item items)
  have "set (classList (nodes (fst (cleanItems d (item # items))) n))
        \<subseteq> set (classList (nodes
            (let d1 = d[item := (nodes d item)\<lparr>classList := removeMsoClasses (classList (nodes d item))\<rparr>]
             in if isHTMLElement (nodes d1 item) then removeMSOStyles d1 item else d1) n))"
    using Cons.IH by (simp add: Let_def)
  also have "\<dots> \<subseteq> set (classList (nodes d n))"
    using removeMsoClasses_subset [of "classList (nodes d item)"]
    by (auto simp: Let_def nodes_update removeMSOStyles_def)
  finally show ?case .
qed

lemma removeMSAttributesOn_classes:
  assumes "removeMSAttributesOn d items = Inr d'"
  shows "set (classList (nodes d' n)) \<subseteq> set (classList (nodes d n))"
  using assms attrs_unwrapAll [of "fst (cleanItems d items)" "snd (cleanItems d items)" d' n]
    cleanItems_classes [of d items n]
  by (auto simp: removeMSAttributesOn_def dest!: attrs_eqD(1))

lemma normalize_classes:
  assumes "normalize_doc d ss = Inr d'" "c \<in> set (classList (nodes d' n))"
  shows "n < length d \<and> c \<in> set (classList (nodes d n))"
proof -
  from assms(1) obtain d1 where t: "transformListItemLikeLElementsIntoLists d ss = Inr d1"
    and r: "removeMSAttributes d1 = Inr d'"
    by (auto simp: normalize_doc_def split: sum.splits)
  have c1: "c \<in> set (classList (nodes d1 n))"
    using removeMSAttributesOn_classes [of d1 _ d' n] r assms(2)
    by (auto simp: removeMSAttributes_def)
  have e: "extends d d1" by (rule extends_transform [OF t])
  show ?thesis
  proof (cases "n < length d")
    case True
    then have "classList (nodes d1 n) = classList (nodes d n)"
      using e by (auto simp: extends_def dest!: attrs_eqD(1))
    with c1 True show ?thesis by simp
  next
    case False
    then have "classList (nodes d1 n) = []" using e by (simp add: extends_def)
    with c1 show ?thesis by simp
  qed
qed

section \<open>Splitting, joining and trimming\<close>

lemma split_on_nonempty [simp]: "split_on sep s \<noteq> []"
  by (induction s) (auto split: list.splits)

lemma split_on_no_sep: "p \<in> set (split_on sep s) \<Longrightarrow> sep \<notin> set p"
  by (induction s arbitrary: p) (auto split: if_splits list.splits)

lemma split_on_plain: "sep \<notin> set x \<Longrightarrow> split_on sep x = [x]"
  by (induction x) auto

lemma split_on_append:
  "sep \<notin> set x \<Longrightarrow> split_on sep (x @ sep # rest) = x # split_on sep rest"
  by (induction x) auto

lemma split_on_join:
  "ps \<noteq> [] \<Longrightarrow> \<forall>p\<in>set ps. sep \<notin> set p \<Longrightarrow> split_on sep (join_with [sep] ps) = ps"
  by (induction "[sep]" ps rule: join_with.induct) (auto simp: split_on_plain split_on_append)

lemma set_trim: "set (trim s) \<subseteq> set s"
  unfolding trim_def
  by (metis set_dropWhileD set_rev subsetI)

lemma last_dropWhile: "dropWhile P xs \<noteq> [] \<Longrightarrow> last (dropWhile P xs) = last xs"
  by (induction xs) auto

lemma trim_ends:
  assumes "trim s \<noteq> []"
  shows "\<not> isSpace (hd (trim s))" "\<not> isSpace (last (trim s))"
proof -
  define u where "u = dropWhile isSpace s"
  define w where "w = dropWhile isSpace (rev u)"
  have t: "trim s = rev w" by (simp add: trim_def u_def w_def)
  with assms have w: "w \<noteq> []" by simp
  then have u: "u \<noteq> []" by (auto simp: w_def)
  have "hd (rev w) = last w" using w by (simp add: hd_rev)
  also have "\<dots> = last (rev u)" using w unfolding w_def by (rule last_dropWhile)
  also have "\<dots> = hd u" using u by (simp add: last_rev)
  finally have "hd (trim s) = hd u" by (simp add: t)
  moreover have "\<not> isSpace (hd u)" using u unfolding u_def by (rule hd_dropWhile)
  ultimately show "\<not> isSpace (hd (trim s))" by simp
  have "last (rev w) = hd w" using w by (simp add: last_rev)
  moreover have "\<not> isSpace (hd w)" using w unfolding w_def by (rule hd_dropWhile)
  ultimately show "\<not> isSpace (last (trim s))" by (simp add: t)
qed

lemma dropWhile_id: "xs = [] \<or> \<not> P (hd xs) \<Longrightarrow> dropWhile P xs = xs"
  by (cases xs) auto

lemma trim_trim [simp]: "trim (trim s) = trim s"
proof (cases "trim s = []")
  case True
  have "trim ([]::jsstring) = []" by (simp add: trim_def)
  with True show ?thesis by simp
next
  case False
  note e = trim_ends [OF False]
  have 1: "dropWhile isSpace (trim s) = trim s" using e(1) by (simp add: dropWhile_id)
  have "hd (rev (trim s)) = last (trim s)" using False by (simp add: hd_rev)
  then have 2: "dropWhile isSpace (rev (trim s)) = rev (trim s)"
    using e(2) by (simp add: dropWhile_id)
  show ?thesis
    unfolding trim_def [of "trim s"] 1 2 by simp
qed

lemma declarations_removeMSOStylesOf:
  assumes "filter (\<lambda>p. \<not> matchesMso (toLowerCase (styleKey p))) (declarations s) \<noteq> []"
  shows "declarations (removeMSOStylesOf s) =
         filter (\<lambda>p. \<not> matchesMso (toLowerCase (styleKey p))) (declarations s)"
proof -
  let ?kept = "filter (\<lambda>p. \<not> matchesMso (toLowerCase (styleKey p))) (declarations s)"
  have nosep: "\<forall>p\<in>set ?kept. 59 \<notin> set p"
    using split_on_no_sep [of _ 59 s] set_trim by (fastforce simp: declarations_def)
  have tr: "map trim ?kept = ?kept"
    by (rule map_idI) (auto simp: declarations_def)
  have "removeMSOStylesOf s = join_with [59] ?kept"
    by (simp add: removeMSOStylesOf_def declarations_def)
  then have "split_on 59 (removeMSOStylesOf s) = ?kept"
    using split_on_join [OF assms nosep] by simp
  then show ?thesis
    using tr by (simp add: declarations_def [of "removeMSOStylesOf s"])
qed

text \<open>The meaning of the test for \<open>\bmso\<close>.\<close>

lemma strip_prefix_ci_SomeD:
  "strip_prefix_ci p s = Some r \<Longrightarrow> \<exists>m. s = m @ r \<and> map lowerAscii m = map lowerAscii p"
proof (induction p s rule: strip_prefix_ci.induct)
  case (1 s)
  then show ?case by simp
next
  case (2 p ps)
  then show ?case by simp
next
  case (3 p ps c cs)
  then have eq: "lowerAscii p = lowerAscii c" and "strip_prefix_ci ps cs = Some r"
    by (auto split: if_splits)
  with 3 obtain m where "cs = m @ r" "map lowerAscii m = map lowerAscii ps" by blast
  with eq show ?case by (intro exI [of _ "c # m"]) simp
qed

lemma strip_prefix_ci_append:
  "map lowerAscii m = map lowerAscii p \<Longrightarrow> strip_prefix_ci p (m @ v) = Some v"
proof (induction p arbitrary: m)
  case Nil
  then show ?case by simp
next
  case (Cons a p)
  then obtain b m' where "m = b # m'" by (cases m) auto
  with Cons show ?case by simp
qed

lemma mso_lower: "map lowerAscii (js ''mso'') = js ''mso''"
  by (simp add: js_def lowerAscii_def)

lemma msoFrom_intro:
  "map lowerAscii m = js ''mso'' \<Longrightarrow>
   (if u = [] then \<not> prev else \<not> isWordChar (last u)) \<Longrightarrow> msoFrom prev (u @ m @ v)"
proof (induction u arbitrary: prev)
  case Nil
  then obtain c cs where m: "m = c # cs" by (cases m) (auto simp: js_def)
  have "strip_prefix_ci (js ''mso'') (m @ v) = Some v"
    by (rule strip_prefix_ci_append) (simp add: Nil.prems(1) mso_lower)
  with Nil.prems(2) show ?case by (simp add: m)
next
  case (Cons a u)
  have "msoFrom (isWordChar a) (u @ m @ v)"
    by (rule Cons.IH [OF Cons.prems(1)]) (use Cons.prems(2) in \<open>auto split: if_splits\<close>)
  then show ?case by simp
qed

lemma msoFrom_elim:
  "msoFrom prev s \<Longrightarrow>
   \<exists>u m v. s = u @ m @ v \<and> map lowerAscii m = js ''mso'' \<and>
            (if u = [] then \<not> prev else \<not> isWordChar (last u))"
proof (induction s arbitrary: prev)
  case Nil
  then show ?case by simp
next
  case (Cons c cs)
  from Cons.prems consider
      (here) "\<not> prev" "strip_prefix_ci (js ''mso'') (c # cs) \<noteq> None"
    | (later) "msoFrom (isWordChar c) cs"
    by auto
  then show ?case
  proof cases
    case here
    then obtain r where "strip_prefix_ci (js ''mso'') (c # cs) = Some r" by auto
    then obtain m where "c # cs = m @ r" "map lowerAscii m = js ''mso''"
      using strip_prefix_ci_SomeD mso_lower by metis
    with here(1) show ?thesis by (intro exI [of _ "[]"] exI [of _ m] exI [of _ r]) simp
  next
    case later
    then obtain u m v where *: "cs = u @ m @ v" "map lowerAscii m = js ''mso''"
        "if u = [] then \<not> isWordChar c else \<not> isWordChar (last u)"
      using Cons.IH by blast
    show ?thesis
      by (intro exI [of _ "c # u"] exI [of _ m] exI [of _ v]) (use * in \<open>auto split: if_splits\<close>)
  qed
qed

lemma matchesMso_iff:
  "matchesMso s \<longleftrightarrow>
   (\<exists>u m v. s = u @ m @ v \<and> map lowerAscii m = js ''mso'' \<and>
            (u = [] \<or> \<not> isWordChar (last u)))"
proof
  assume "matchesMso s"
  then obtain u m v where "s = u @ m @ v" "map lowerAscii m = js ''mso''"
      "if u = [] then \<not> False else \<not> isWordChar (last u)"
    unfolding matchesMso_def using msoFrom_elim by blast
  then show "\<exists>u m v. s = u @ m @ v \<and> map lowerAscii m = js ''mso'' \<and>
            (u = [] \<or> \<not> isWordChar (last u))"
    by (intro exI [of _ u] exI [of _ m] exI [of _ v]) (auto split: if_splits)
next
  assume "\<exists>u m v. s = u @ m @ v \<and> map lowerAscii m = js ''mso'' \<and>
            (u = [] \<or> \<not> isWordChar (last u))"
  then obtain u m v where "s = u @ m @ v" "map lowerAscii m = js ''mso''"
      "u = [] \<or> \<not> isWordChar (last u)" by blast
  then show "matchesMso s"
    unfolding matchesMso_def using msoFrom_intro [of m u False v] by auto
qed

section \<open>The list stack\<close>

lemma getListItemData_itemOfData:
  "c_id (getListItemData st) = None \<Longrightarrow>
   c_indent (getListItemData st) = None \<or> c_indent (getListItemData st) = Some 1"
  by (auto simp: getListItemData_def split: option.splits)

lemma itemLike_itemOfData:
  assumes "itemLike d n = Inr (Some c)"
  shows "itemOfData c"
proof -
  from assms obtain st where
      "c = listItemData.extend (getListItemData st) (candidate.fields n)"
    by (auto simp: itemLike_def Let_def split: if_splits option.splits sum.splits bool.splits)
  then have "c_id c = c_id (getListItemData st)" "c_indent c = c_indent (getListItemData st)"
    by (simp_all add: listItemData.defs candidate.defs)
  then show ?thesis
    unfolding itemOfData_def using getListItemData_itemOfData [of st] by presburger
qed

lemma collectItems_itemOfData:
  "collectItems d ns = Inr cs \<Longrightarrow> \<forall>c\<in>set cs. itemOfData c"
  by (induction ns arbitrary: cs)
     (auto split: sum.splits option.splits dest: itemLike_itemOfData)

lemma findAllItemLikeElements_itemOfData:
  "findAllItemLikeElements d = Inr cs \<Longrightarrow> \<forall>c\<in>set cs. itemOfData c"
  unfolding findAllItemLikeElements_def by (rule collectItems_itemOfData)

lemma trimOnIdChange_cases:
  assumes "trimOnIdChange stk indent i = Inr stk1" and "indent \<le> int (length stk)"
  shows "stk1 = stk \<or> (0 \<le> indent \<and> stk1 = take (nat indent) stk)"
  using assms by (auto simp: trimOnIdChange_def js_set_length_def split: if_splits)

lemma trimOnIdChange_negative:
  "trimOnIdChange stk indent i = Inr stk1 \<Longrightarrow> indent < 0 \<Longrightarrow> i = None"
  by (auto simp: trimOnIdChange_def js_set_length_def js_get_def frameId_def split: if_splits)

lemma createNewEmptyList_fresh: "snd (createNewEmptyList d ls b) = length d"
  by (simp add: createNewEmptyList_def Let_def fresh_def)

lemma createNewEmptyList_node:
  "tag (nodes (fst (createNewEmptyList d ls b)) (length d)) = ls_type ls"
  "startAttr (nodes (fst (createNewEmptyList d ls b)) (length d)) = startAttrFor ls"
  "length (fst (createNewEmptyList d ls b)) = Suc (length d)"
  by (auto simp: createNewEmptyList_def Let_def nodes_append newElement_def startAttrFor_def
      split: option.splits)

lemma createList_result:
  assumes "createList s item indent key ls0 = Inr s'"
  shows "stack s' = js_set (stack s) indent
                      (candidate.extend item (frame.fields (length (doc s)) []))"
    and "encounteredLists s' =
           (if indent = 0 \<and> c_id item \<noteq> None
            then (encounteredLists s)
                   (key := Num (startIndexOr1
                      (resumeStartIndex ls0 indent (c_id item) (encounteredLists s key))))
            else encounteredLists s)"
    and "length (doc s) < length (doc s')"
    and "tag (nodes (doc s') (length (doc s))) =
           ls_type (resumeStartIndex ls0 indent (c_id item) (encounteredLists s key))"
    and "startAttr (nodes (doc s') (length (doc s))) =
           startAttrFor (resumeStartIndex ls0 indent (c_id item) (encounteredLists s key))"
proof -
  let ?ls = "resumeStartIndex ls0 indent (c_id item) (encounteredLists s key)"
  let ?d1 = "fst (createNewEmptyList (doc s) ?ls False)"
  from assms have i: "insertNewList ?d1 (stack s) indent (c_element item) (length (doc s)) = Inr (doc s')"
    and st: "stack s' = js_set (stack s) indent
                      (candidate.extend item (frame.fields (length (doc s)) []))"
    and cn: "encounteredLists s' =
           (if indent = 0 \<and> c_id item \<noteq> None
            then (encounteredLists s)(key := Num (startIndexOr1 ?ls))
            else encounteredLists s)"
    using createNewEmptyList_fresh [of "doc s" ?ls False]
    unfolding createList_def Let_def
    by (auto split: prod.splits sum.splits)
  have e: "extends ?d1 (doc s')" by (rule extends_insertNewList [OF i])
  have l: "length (doc s) < length ?d1" by (simp add: createNewEmptyList_node)
  then have a: "attrs (nodes (doc s') (length (doc s))) = attrs (nodes ?d1 (length (doc s)))"
    using e by (simp add: extends_def)
  show "stack s' = js_set (stack s) indent
                      (candidate.extend item (frame.fields (length (doc s)) []))" by (rule st)
  show "encounteredLists s' =
           (if indent = 0 \<and> c_id item \<noteq> None
            then (encounteredLists s)(key := Num (startIndexOr1 ?ls))
            else encounteredLists s)" by (rule cn)
  show "length (doc s) < length (doc s')" using e l by (simp add: extends_def)
  show "tag (nodes (doc s') (length (doc s))) = ls_type ?ls"
    using attrs_eqD(3) [OF a] by (simp add: createNewEmptyList_node)
  show "startAttr (nodes (doc s') (length (doc s))) = startAttrFor ?ls"
    using attrs_eqD(2) [OF a] by (simp add: createNewEmptyList_node)
qed

lemma appendListItem_result:
  assumes "appendListItem s item indent key = Inr s'"
  shows "encounteredLists s' = countListItem (encounteredLists s) indent (c_id item) key"
    and "stack s' = stack s \<or>
         (\<exists>f li. js_get (stack s) indent = Some f \<and>
            stack s' = js_set (stack s) indent (f\<lparr>listItemElements := listItemElements f @ [li]\<rparr>))"
  using assms unfolding appendListItem_def attachListItem_def
  by (auto split: prod.splits sum.splits option.splits)


lemma dense_take: "dense stk \<Longrightarrow> dense (take n stk)"
  by (auto simp: dense_def dest: in_set_takeD)

lemma js_set_top:
  assumes "0 \<le> indent" and "int (length stk) - 1 \<le> indent" and "indent \<le> int (length stk)"
    and "dense stk"
  shows "dense (js_set stk indent v) \<and> length (js_set stk indent v) = nat indent + 1 \<and>
         take (nat indent) (js_set stk indent v) = take (nat indent) stk"
proof (cases "nat indent < length stk")
  case True
  with assms have "nat indent + 1 = length stk" by linarith
  with True assms(1,4) show ?thesis
    by (auto simp: js_set_def dense_def dest!: set_update_subset_insert [THEN subsetD])
next
  case False
  with assms have "nat indent = length stk" by linarith
  with False assms(1,4) show ?thesis
    by (auto simp: js_set_def dense_def)
qed

lemma js_set_inside:
  assumes "js_get stk indent = Some f"
  shows "length (js_set stk indent v) = length stk \<and>
         take (nat indent) (js_set stk indent v) = take (nat indent) stk \<and>
         (dense stk \<longrightarrow> dense (js_set stk indent v))"
  using assms
  by (auto simp: js_get_def js_set_def dense_def split: if_splits
      dest!: set_update_subset_insert [THEN subsetD])

lemma openList_stack:
  assumes "openList ss s item indent key = Inr s2"
  shows "(stack s2 = stack s \<and> indent \<le> int (length (stack s)) - 1) \<or>
         (\<exists>fr. stack s2 = js_set (stack s) indent fr)"
  using assms
  by (auto simp: openList_def needsNewList_def split: sum.splits if_splits
      dest: createList_result(1))

lemma trimOrOpen_stack:
  assumes "trimOrOpen ss s item indent key = Inr s2"
    and "0 \<le> indent" and "indent \<le> int (length (stack s))" and "dense (stack s)"
  shows "dense (stack s2) \<and> length (stack s2) = nat indent + 1 \<and>
         take (nat indent) (stack s2) = take (nat indent) (stack s)"
proof (cases "indent < int (length (stack s)) - 1")
  case True
  with assms(1,2) have "stack s2 = take (nat indent + 1) (stack s)"
    by (auto simp: trimOrOpen_def js_set_length_def nat_add_distrib split: if_splits)
  with True assms(2,4) show ?thesis
    by (auto simp: dense_take min_def)
next
  case False
  with assms(1) have "openList ss s item indent key = Inr s2"
    by (simp add: trimOrOpen_def)
  from openList_stack [OF this] show ?thesis
  proof
    assume "stack s2 = stack s \<and> indent \<le> int (length (stack s)) - 1"
    with False assms(2,4) show ?thesis by auto
  next
    assume "\<exists>fr. stack s2 = js_set (stack s) indent fr"
    then obtain fr where "stack s2 = js_set (stack s) indent fr" ..
    with js_set_top [of indent "stack s" fr] False assms(2-4) show ?thesis by simp
  qed
qed

lemma appendListItem_stack:
  assumes "appendListItem s item indent key = Inr s'"
  shows "length (stack s') = length (stack s) \<and>
         take (nat indent) (stack s') = take (nat indent) (stack s) \<and>
         (dense (stack s) \<longrightarrow> dense (stack s'))"
  using appendListItem_result(2) [OF assms] js_set_inside by fastforce

text \<open>The parts of a step of the main loop that returns.\<close>

lemma processItem_parts:
  assumes "processItem ss s item = Inr s'" and "c_indent item = Some lvl"
  obtains cont stk1 s2 where
    "isListContinuation (doc s) item = Inr cont"
    "trimOnIdChange (resetStack cont (stack s))
       (normalizedIndent lvl (resetStack cont (stack s))) (c_id item) = Inr stk1"
    "trimOrOpen ss (s\<lparr>stack := stk1\<rparr>) item
       (normalizedIndent lvl (resetStack cont (stack s)))
       (idString (c_id item) @ js '':'' @ toString lvl) = Inr s2"
    "appendListItem s2 item (normalizedIndent lvl (resetStack cont (stack s)))
       (idString (c_id item) @ js '':'' @ toString lvl) = Inr s'"
  using assms unfolding processItem_def Let_def
  by (auto split: sum.splits)

lemma processItem_stack:
  assumes step: "processItem ss s item = Inr s'" and lvl: "c_indent item = Some lvl"
    and wf: "itemOfData item" and cont: "isListContinuation (doc s) item = Inr cont"
    and dense: "dense (stack s)"
  shows "0 \<le> normalizedIndent lvl (resetStack cont (stack s))"
    and "normalizedIndent lvl (resetStack cont (stack s)) \<le> int (length (resetStack cont (stack s)))"
    and "dense (stack s')"
    and "length (stack s') = nat (normalizedIndent lvl (resetStack cont (stack s))) + 1"
    and "take (nat (normalizedIndent lvl (resetStack cont (stack s)))) (stack s') =
         take (nat (normalizedIndent lvl (resetStack cont (stack s)))) (resetStack cont (stack s))"
proof -
  let ?stk0 = "resetStack cont (stack s)"
  let ?indent = "normalizedIndent lvl ?stk0"
  from step lvl cont obtain stk1 s2 where
      t: "trimOnIdChange ?stk0 ?indent (c_id item) = Inr stk1"
      and o: "trimOrOpen ss (s\<lparr>stack := stk1\<rparr>) item ?indent
                (idString (c_id item) @ js '':'' @ toString lvl) = Inr s2"
      and a: "appendListItem s2 item ?indent
                (idString (c_id item) @ js '':'' @ toString lvl) = Inr s'"
    unfolding processItem_def Let_def by (auto split: sum.splits)
  have le: "?indent \<le> int (length ?stk0)" by (simp add: normalizedIndent_def)
  have d0: "dense ?stk0" using dense by (simp add: resetStack_def dense_def)
  have ge: "0 \<le> ?indent"
  proof (rule ccontr)
    assume "\<not> 0 \<le> ?indent"
    then have neg: "?indent < 0" by simp
    then have "c_id item = None" using trimOnIdChange_negative [OF t] by simp
    with wf lvl have "lvl = 1" by (simp add: itemOfData_def)
    with neg show False by (simp add: normalizedIndent_def)
  qed
  from trimOnIdChange_cases [OF t le] ge
  have s1: "stk1 = ?stk0 \<or> stk1 = take (nat ?indent) ?stk0" by auto
  then have d1: "dense stk1" using d0 by (auto simp: dense_take)
  from s1 ge le have l1: "?indent \<le> int (length stk1)" by auto
  from s1 have t1: "take (nat ?indent) stk1 = take (nat ?indent) ?stk0" by auto
  from trimOrOpen_stack [OF o ge] l1 d1
  have 2: "dense (stack s2)" "length (stack s2) = nat ?indent + 1"
      "take (nat ?indent) (stack s2) = take (nat ?indent) stk1" by auto
  from appendListItem_stack [OF a] 2 t1
  show "0 \<le> ?indent" "?indent \<le> int (length ?stk0)" "dense (stack s')"
      "length (stack s') = nat ?indent + 1"
      "take (nat ?indent) (stack s') = take (nat ?indent) ?stk0"
    using ge le by auto
qed

lemma processItem_dense:
  assumes "processItem ss s item = Inr s'" and "itemOfData item" and "dense (stack s)"
  shows "dense (stack s')"
proof (cases "c_indent item")
  case None
  with assms show ?thesis by (simp add: processItem_def)
next
  case (Some lvl)
  from processItem_parts [OF assms(1) Some] obtain cont where
      "isListContinuation (doc s) item = Inr cont" by auto
  from processItem_stack(3) [OF assms(1) Some assms(2) this assms(3)] show ?thesis .
qed

lemma processItems_dense:
  "processItems ss s items = Inr s' \<Longrightarrow> \<forall>i\<in>set items. itemOfData i \<Longrightarrow> dense (stack s) \<Longrightarrow>
   dense (stack s')"
proof (induction items arbitrary: s)
  case Nil
  then show ?case by simp
next
  case (Cons item items)
  then obtain s1 where 1: "processItem ss s item = Inr s1"
      and 2: "processItems ss s1 items = Inr s'"
    by (auto split: sum.splits)
  have "dense (stack s1)" using processItem_dense [OF 1] Cons.prems by simp
  with Cons.IH [OF 2] Cons.prems show ?case by simp
qed

lemma openedFor_new: "openedFor item (candidate.extend item (frame.fields l []))"
  by (simp add: openedFor_def candidate.defs frame.defs)

lemma openedFor_items:
  "openedFor item f \<Longrightarrow> openedFor item (f\<lparr>listItemElements := lis\<rparr>)"
  by (cases f) (auto simp: openedFor_def candidate.defs frame.defs)

lemma sameFrame_items: "sameFrame f (f\<lparr>listItemElements := lis\<rparr>)"
  by (simp add: sameFrame_def)

lemma sameFrame_refl: "sameFrame f f"
  by (simp add: sameFrame_def)

lemma js_get_js_set: "0 \<le> i \<Longrightarrow> js_get (js_set stk i v) i = Some v"
  by (auto simp: js_get_def js_set_def nth_append)

lemma dense_js_get:
  "dense stk \<Longrightarrow> 0 \<le> i \<Longrightarrow> i < int (length stk) \<Longrightarrow> \<exists>f. js_get stk i = Some f"
proof -
  assume d: "dense stk" and i: "0 \<le> i" "i < int (length stk)"
  then have "nat i < length stk" by simp
  then have "stk ! nat i \<in> set stk" by (rule nth_mem)
  with d have "stk ! nat i \<noteq> None" unfolding dense_def by metis
  with i show ?thesis by (auto simp: js_get_def)
qed

lemma js_get_take: "js_get (take (nat i) stk) i = None"
  by (auto simp: js_get_def min_def)

lemma openList_stack_new:
  assumes "openList ss s item indent key = Inr s2"
  shows "(stack s2 = stack s \<and> indent \<le> int (length (stack s)) - 1) \<or>
         stack s2 = js_set (stack s) indent
                      (candidate.extend item (frame.fields (length (doc s)) []))"
  using assms
  by (auto simp: openList_def needsNewList_def split: sum.splits if_splits
      dest: createList_result(1))

lemma trimOrOpen_top:
  assumes "trimOrOpen ss s item indent key = Inr s2"
    and "0 \<le> indent" and "indent \<le> int (length (stack s))" and "dense (stack s)"
  shows "\<exists>f. js_get (stack s2) indent = Some f \<and>
             (js_get (stack s) indent = Some f \<or> openedFor item f)"
proof (cases "indent < int (length (stack s)) - 1")
  case True
  with assms(1,2) have "stack s2 = take (nat indent + 1) (stack s)"
    by (auto simp: trimOrOpen_def js_set_length_def nat_add_distrib split: if_splits)
  with True assms(2) have "js_get (stack s2) indent = js_get (stack s) indent"
    by (simp add: js_get_def)
  moreover from dense_js_get [OF assms(4,2)] True
  obtain f where "js_get (stack s) indent = Some f" by auto
  ultimately show ?thesis by simp
next
  case False
  with assms(1) have "openList ss s item indent key = Inr s2"
    by (simp add: trimOrOpen_def)
  from openList_stack_new [OF this] show ?thesis
  proof
    assume a: "stack s2 = stack s \<and> indent \<le> int (length (stack s)) - 1"
    with dense_js_get [OF assms(4,2)]
    obtain f where "js_get (stack s) indent = Some f" by auto
    with a show ?thesis by simp
  next
    assume "stack s2 = js_set (stack s) indent
                      (candidate.extend item (frame.fields (length (doc s)) []))"
    with assms(2) show ?thesis by (simp add: js_get_js_set openedFor_new)
  qed
qed

lemma appendListItem_top:
  assumes "appendListItem s item indent key = Inr s'" and "0 \<le> indent"
    and "js_get (stack s) indent = Some f"
  shows "\<exists>lis. js_get (stack s') indent = Some (f\<lparr>listItemElements := lis\<rparr>)"
proof -
  from appendListItem_result(2) [OF assms(1)] show ?thesis
  proof
    assume "stack s' = stack s"
    with assms(3) have "js_get (stack s') indent = Some (f\<lparr>listItemElements := listItemElements f\<rparr>)"
      by simp
    then show ?thesis ..
  next
    assume "\<exists>f li. js_get (stack s) indent = Some f \<and>
            stack s' = js_set (stack s) indent (f\<lparr>listItemElements := listItemElements f @ [li]\<rparr>)"
    with assms(2,3) show ?thesis by (auto simp: js_get_js_set)
  qed
qed

lemma processItem_top:
  assumes step: "processItem ss s item = Inr s'" and lvl: "c_indent item = Some lvl"
    and wf: "itemOfData item" and cont: "isListContinuation (doc s) item = Inr cont"
    and dense: "dense (stack s)"
  shows "\<exists>f. js_get (stack s') (normalizedIndent lvl (resetStack cont (stack s))) = Some f \<and>
             (openedFor item f \<or>
              (\<exists>f0. js_get (resetStack cont (stack s))
                       (normalizedIndent lvl (resetStack cont (stack s))) = Some f0 \<and>
                    sameFrame f0 f))"
proof -
  let ?stk0 = "resetStack cont (stack s)"
  let ?indent = "normalizedIndent lvl ?stk0"
  from step lvl cont obtain stk1 s2 where
      t: "trimOnIdChange ?stk0 ?indent (c_id item) = Inr stk1"
      and o: "trimOrOpen ss (s\<lparr>stack := stk1\<rparr>) item ?indent
                (idString (c_id item) @ js '':'' @ toString lvl) = Inr s2"
      and a: "appendListItem s2 item ?indent
                (idString (c_id item) @ js '':'' @ toString lvl) = Inr s'"
    unfolding processItem_def Let_def by (auto split: sum.splits)
  have ge: "0 \<le> ?indent" and le: "?indent \<le> int (length ?stk0)"
    using processItem_stack(1,2) [OF step lvl wf cont dense] by auto
  have d0: "dense ?stk0" using dense by (simp add: resetStack_def dense_def)
  from trimOnIdChange_cases [OF t le]
  have s1: "stk1 = ?stk0 \<or> stk1 = take (nat ?indent) ?stk0" by auto
  then have d1: "dense stk1" using d0 by (auto simp: dense_take)
  from s1 ge le have l1: "?indent \<le> int (length stk1)" by auto
  from trimOrOpen_top [OF o ge] l1 d1 obtain f2 where
      f2: "js_get (stack s2) ?indent = Some f2"
      and f2': "js_get stk1 ?indent = Some f2 \<or> openedFor item f2"
    by auto
  from appendListItem_top [OF a ge f2] obtain lis where
      f: "js_get (stack s') ?indent = Some (f2\<lparr>listItemElements := lis\<rparr>)" ..
  from f2' show ?thesis
  proof
    assume g: "js_get stk1 ?indent = Some f2"
    with s1 have "stk1 = ?stk0" by (auto simp: js_get_take)
    with g f show ?thesis by (auto simp: sameFrame_items)
  next
    assume "openedFor item f2"
    with f show ?thesis by (auto simp: openedFor_items)
  qed
qed

lemma processItems_snoc:
  "processItems ss s (xs @ [x]) =
     (case processItems ss s xs of Inl e \<Rightarrow> Inl e | Inr s1 \<Rightarrow> processItem ss s1 x)"
  by (induction xs arbitrary: s) (auto split: sum.splits)

section \<open>The counters of the top-level lists\<close>











lemma listElement_new [simp]:
  "listElement (candidate.extend item (frame.fields l lis)) = l"
  by (simp add: candidate.defs frame.defs)

text \<open>A step on an empty stack, for a candidate with a list id, opens a list at depth 0.\<close>

lemma processItem_on_empty:
  assumes step: "processItem ss s item = Inr s'"
    and id: "c_id item = Some i" and lvl: "c_indent item = Some lvl"
    and cont: "isListContinuation (doc s) item = Inr cont"
    and empty: "resetStack cont (stack s) = []"
    and key: "key = i @ js '':'' @ toString lvl"
  shows "\<exists>s2. openList ss (s\<lparr>stack := []\<rparr>) item 0 key = Inr s2 \<and>
              appendListItem s2 item 0 key = Inr s'"
proof -
  let ?indent = "normalizedIndent lvl ([] :: frame option list)"
  have k: "idString (c_id item) @ js '':'' @ toString lvl = key"
    using id key by (simp add: idString_def)
  from processItem_parts [OF step lvl] obtain cont' stk1 s2 where
      c': "isListContinuation (doc s) item = Inr cont'"
      and t': "trimOnIdChange (resetStack cont' (stack s))
                 (normalizedIndent lvl (resetStack cont' (stack s))) (c_id item) = Inr stk1"
      and o': "trimOrOpen ss (s\<lparr>stack := stk1\<rparr>) item
                 (normalizedIndent lvl (resetStack cont' (stack s)))
                 (idString (c_id item) @ js '':'' @ toString lvl) = Inr s2"
      and a': "appendListItem s2 item (normalizedIndent lvl (resetStack cont' (stack s)))
                 (idString (c_id item) @ js '':'' @ toString lvl) = Inr s'"
    by blast
  from c' cont have "cont' = cont" by simp
  with t' o' a' empty id k have
      t: "trimOnIdChange [] ?indent (Some i) = Inr stk1"
      and o: "trimOrOpen ss (s\<lparr>stack := stk1\<rparr>) item ?indent key = Inr s2"
      and a: "appendListItem s2 item ?indent key = Inr s'"
    by simp_all
  have "\<not> ?indent < 0"
    using trimOnIdChange_negative [OF t] by auto
  then have ind: "?indent = 0"
    by (simp add: normalizedIndent_def)
  from t ind have stk1: "stk1 = []" by (simp add: trimOnIdChange_def)
  from o ind stk1 have "openList ss (s\<lparr>stack := []\<rparr>) item 0 key = Inr s2"
    by (simp add: trimOrOpen_def)
  with a ind show ?thesis by auto
qed


lemma processItem_opens_top:
  assumes step: "processItem ss s item = Inr s'"
    and id: "c_id item = Some i" and lvl: "c_indent item = Some lvl"
    and cont: "isListContinuation (doc s) item = Inr cont"
    and empty: "resetStack cont (stack s) = []"
    and det: "detectListStyle (doc s) item ss = Inr ls0"
    and key: "key = i @ js '':'' @ toString lvl"
    and ls: "ls = resumeStartIndex ls0 0 (Some i) (encounteredLists s key)"
  shows "tag (nodes (doc s') (length (doc s))) = ls_type ls"
    and "startAttr (nodes (doc s') (length (doc s))) = startAttrFor ls"
    and "encounteredLists s' = (encounteredLists s)(key := Num (startIndexOr1 ls + 1))"
    and "\<exists>f. js_get (stack s') 0 = Some f \<and> listElement f = length (doc s)"
proof -
  from processItem_on_empty [OF step id lvl cont empty key] obtain s2 where
      o: "openList ss (s\<lparr>stack := []\<rparr>) item 0 key = Inr s2"
      and a0: "appendListItem s2 item 0 key = Inr s'"
    by blast
  from o det have c: "createList (s\<lparr>stack := []\<rparr>) item 0 key ls0 = Inr s2"
    by (simp add: openList_def needsNewList_def)
  from createList_result [OF c] id ls
  have st: "stack s2 = js_set [] 0 (candidate.extend item (frame.fields (length (doc s)) []))"
    and en: "encounteredLists s2 = (encounteredLists s)(key := Num (startIndexOr1 ls))"
    and len: "length (doc s) < length (doc s2)"
    and tg: "tag (nodes (doc s2) (length (doc s))) = ls_type ls"
    and sa: "startAttr (nodes (doc s2) (length (doc s))) = startAttrFor ls"
    by simp_all
  from extends_appendListItem [OF a0] len
  have at: "attrs (nodes (doc s') (length (doc s))) = attrs (nodes (doc s2) (length (doc s)))"
    by (simp add: extends_def)
  from attrs_eqD(3) [OF at] tg show "tag (nodes (doc s') (length (doc s))) = ls_type ls" by simp
  from attrs_eqD(2) [OF at] sa
  show "startAttr (nodes (doc s') (length (doc s))) = startAttrFor ls" by simp
  from appendListItem_result(1) [OF a0] en id
  show "encounteredLists s' = (encounteredLists s)(key := Num (startIndexOr1 ls + 1))"
    by (simp add: countListItem_def increment_def)
  from st have "js_get (stack s2) 0 =
      Some (candidate.extend item (frame.fields (length (doc s)) []))"
    by (simp add: js_get_js_set)
  from appendListItem_top [OF a0 _ this]
  show "\<exists>f. js_get (stack s') 0 = Some f \<and> listElement f = length (doc s)" by auto
qed

section \<open>The continuation check on a text node\<close>

text \<open>
  Claim C1 says that \<open>normalize\<close> never throws, and that the continuation check does not
  fail when the node right before a candidate is a text node. In the code, \<open>isList\<close> is
  called on that node and reads \<open>tagName.toLowerCase()\<close> of it; a text node has no
  \<open>tagName\<close>. On two list paragraphs with a space between them, the first paragraph is
  wrapped into a list, and the continuation check of the second throws a TypeError.
\<close>

theorem normalize_throws_on_text_sibling:
  "normalize_doc docTextBetween [] = Inl TypeError"
  by (simp add: model_defs docTextBetween_def cong: let_weak_cong)

text \<open>The same for every candidate: with a text node right before it, the check throws.\<close>

lemma isListContinuation_text_sibling:
  "previousSibling d (c_element item) = Some prev \<Longrightarrow> kind (nodes d prev) \<noteq> ElementNode \<Longrightarrow>
   isListContinuation d item = Inl TypeError"
  by (simp add: isListContinuation_def isList_def isElement_def)

text \<open>
  Claim C4 says that \<open>normalize(normalize(x))\<close> does not throw for any input. The first
  call already throws when text comes right before a list paragraph, by the same
  defect as in C1.
\<close>

theorem normalize_twice_throws:
  "normalize_twice docTextBefore [] [] = Inl TypeError"
  by (simp add: model_defs docTextBefore_def cong: let_weak_cong)

section \<open>Bullet sniffing behind a leading text node\<close>

text \<open>
  Claim C6 says that sniffing the bullet of a candidate whose first child is a bare text
  node returns "unknown". \<open>findListMarkerNode\<close> tests the first entry of \<open>children\<close>,
  which holds elements only, so a leading text node is never seen: the span that
  follows the text is taken as the marker, and its text \<open>o\<close> makes the list a
  \<open>circle\<close> list.
\<close>

theorem leading_text_child_is_not_seen:
  "childNodes (nodes docTextFirst 4) = [5, 6] \<and> kind (nodes docTextFirst 5) = TextNode \<and>
   findListMarkerNode docTextFirst 4 = Some 6 \<and>
   findBulletedListStyle docTextFirst 4 = Inr (Some (js ''circle'')) \<and>
   tagAfter (normalize_doc docTextFirst sheetBullet) 8 = Some (js ''ul'') \<and>
   styleAttrAfter (normalize_doc docTextFirst sheetBullet) 8 =
     Some (Some (js ''list-style-type: circle;''))"
  by (simp add: model_defs docTextFirst_def sheetBullet_def cong: let_weak_cong)

section \<open>The stack is dense and cut to a prefix\<close>

text \<open>
  Claim C5. Let the candidates of a document be processed up to some candidate with a level,
  and let the step for that candidate return. The stack before the step is dense. With
  \<open>stk\<close> the stack after the reset of line 67 and \<open>depth = min (level - 1) (length stk)\<close>
  the normalized depth, the depth is between 0 and the length of \<open>stk\<close>; after the step
  the stack is dense, has \<open>depth + 1\<close> frames, agrees with \<open>stk\<close> below \<open>depth\<close> (it is
  a prefix of \<open>stk\<close> with one frame on top), and the frame at \<open>depth\<close> is either the
  frame that was there, with the list items it collects, or a frame opened for this
  candidate. So a frame is only ever written at the depth of the step that opens it, and
  frames never move. A candidate of level 0 with a list id makes the step throw a
  RangeError (\<open>stack.length = -1\<close>); the statement is about steps that return.
\<close>

theorem stack_is_dense_and_truncated:
  assumes "findAllItemLikeElements d = Inr (pre @ item # rest)"
    and "processItems ss (initialState d) pre = Inr s"
    and "processItem ss s item = Inr s'"
    and "c_indent item = Some lvl"
    and "isListContinuation (doc s) item = Inr continuation"
    and "stk = resetStack continuation (stack s)"
    and "depth = normalizedIndent lvl stk"
  shows "dense (stack s) \<and> 0 \<le> depth \<and> depth \<le> int (length stk) \<and>
         dense (stack s') \<and> length (stack s') = nat depth + 1 \<and>
         take (nat depth) (stack s') = take (nat depth) stk \<and>
         (\<exists>f. js_get (stack s') depth = Some f \<and>
              (openedFor item f \<or> (\<exists>f0. js_get stk depth = Some f0 \<and> sameFrame f0 f)))"
proof -
  from findAllItemLikeElements_itemOfData [OF assms(1)]
  have wf: "\<forall>c\<in>set pre. itemOfData c" and wfi: "itemOfData item" by auto
  have "dense (stack (initialState d))" by (simp add: initialState_def dense_def)
  from processItems_dense [OF assms(2) wf this] have d: "dense (stack s)" .
  from processItem_stack [OF assms(3,4) wfi assms(5) d]
    processItem_top [OF assms(3,4) wfi assms(5) d] d assms(6,7)
  show ?thesis by simp
qed

theorem stack_is_dense_and_truncated_witness:
  "findAllItemLikeElements docNested = Inr [itemOf 4 1, itemOf 6 2, itemOf 8 1] \<and>
   (\<exists>s s'. processItems [] (initialState docNested) [itemOf 4 1, itemOf 6 2] = Inr s \<and>
      processItem [] s (itemOf 8 1) = Inr s' \<and>
      length (stack s) = 2 \<and> dense (stack s) \<and> dense (stack s') \<and>
      length (stack s') = 1 \<and>
      (\<exists>f. js_get (stack s') 0 = Some f \<and>
           (openedFor (itemOf 8 1) f \<or> (\<exists>f0. js_get (stack s) 0 = Some f0 \<and> sameFrame f0 f))))"
proof -
  have items: "findAllItemLikeElements docNested = Inr [itemOf 4 1, itemOf 6 2, itemOf 8 1]"
    by (simp add: model_defs docNested_def itemOf_def cong: let_weak_cong)
  have "case processItems [] (initialState docNested) [itemOf 4 1, itemOf 6 2] of
          Inl e \<Rightarrow> False
        | Inr s \<Rightarrow> length (stack s) = 2 \<and> isListContinuation (doc s) (itemOf 8 1) = Inr True \<and>
            (case processItem [] s (itemOf 8 1) of Inl e \<Rightarrow> False | Inr s' \<Rightarrow> True)"
    by (simp add: model_defs docNested_def itemOf_def cong: let_weak_cong)
  then obtain s s' where
      s: "processItems [] (initialState docNested) [itemOf 4 1, itemOf 6 2] = Inr s"
      and l: "length (stack s) = 2"
      and c: "isListContinuation (doc s) (itemOf 8 1) = Inr True"
      and s': "processItem [] s (itemOf 8 1) = Inr s'"
    by (auto split: sum.splits)
  have i: "c_indent (itemOf 8 1) = Some 1" by (simp add: itemOf_def)
  have e: "findAllItemLikeElements docNested = Inr ([itemOf 4 1, itemOf 6 2] @ itemOf 8 1 # [])"
    using items by simp
  have n: "normalizedIndent 1 (resetStack True (stack s)) = 0"
    by (simp add: normalizedIndent_def resetStack_def)
  from stack_is_dense_and_truncated [OF e s s' i c refl refl]
  have "dense (stack s) \<and> dense (stack s') \<and> length (stack s') = 1 \<and>
      (\<exists>f. js_get (stack s') 0 = Some f \<and>
           (openedFor (itemOf 8 1) f \<or> (\<exists>f0. js_get (stack s) 0 = Some f0 \<and> sameFrame f0 f)))"
    unfolding n by (simp add: resetStack_def)
  with items s s' l show ?thesis by blast
qed

section \<open>The start of a reopened list\<close>

text \<open>
  Claim C2, as amended. A step for a candidate with a list id whose continuation check
  gives \<open>false\<close> resets the stack and opens a new list at depth 0; the new list is the
  node \<open>length (doc s)\<close>, held by the frame at depth 0. When the style sheet makes it an
  ordered list, its \<open>start\<close> attribute is read off the counter of its key
  \<open>listId:level\<close> whenever that counter is a number other than 0: the attribute is the
  counter, and is absent when the counter is 1. The start index of the style sheet is
  used only when the key has no counter. So for a reopened list the running counter wins
  over an explicit start index.
\<close>

theorem reopened_list_starts_at_counter:
  assumes "processItem ss s item = Inr s'"
    and "c_id item = Some i" and "c_indent item = Some lvl"
    and "isListContinuation (doc s) item = Inr False"
    and "detectListStyle (doc s) item ss = Inr ls"
    and "ls_type ls = js ''ol''"
    and "key = i @ js '':'' @ toString lvl"
  shows "(\<exists>f. js_get (stack s') 0 = Some f \<and> listElement f = length (doc s)) \<and>
         tag (nodes (doc s') (length (doc s))) = js ''ol'' \<and>
         startAttr (nodes (doc s') (length (doc s))) =
           (case encounteredLists s key of
              Num n \<Rightarrow> if n = 0 then startAttrFor ls
                       else if n = 1 then None else Some (toString n)
            | _ \<Rightarrow> startAttrFor ls)"
proof -
  have e: "resetStack False (stack s) = []" by (simp add: resetStack_def)
  from processItem_opens_top [OF assms(1-4) e assms(5,7) refl] assms(6)
  show ?thesis
    by (cases "encounteredLists s key")
       (auto simp: resumeStartIndex_def truthy_def startAttrFor_def)
qed

theorem reopened_list_starts_at_counter_witness:
  "\<exists>s s' ls. processItems sheetStartAt5 (initialState docInterrupted) [itemOf 4 1, itemOf 6 1] = Inr s \<and>
      processItem sheetStartAt5 s (itemOf 10 1) = Inr s' \<and>
      detectListStyle (doc s) (itemOf 10 1) sheetStartAt5 = Inr ls \<and>
      startIndex ls = Some 5 \<and>
      encounteredLists s (js ''0'' @ js '':'' @ toString 1) = Num 7 \<and>
      tag (nodes (doc s') (length (doc s))) = js ''ol'' \<and>
      startAttr (nodes (doc s') (length (doc s))) = Some (js ''7'')"
proof -
  have "case processItems sheetStartAt5 (initialState docInterrupted) [itemOf 4 1, itemOf 6 1] of
          Inl e \<Rightarrow> False
        | Inr s \<Rightarrow>
            encounteredLists s (js ''0'' @ js '':'' @ toString 1) = Num 7 \<and>
            isListContinuation (doc s) (itemOf 10 1) = Inr False \<and>
            (case detectListStyle (doc s) (itemOf 10 1) sheetStartAt5 of
               Inl e \<Rightarrow> False
             | Inr ls \<Rightarrow> ls_type ls = js ''ol'' \<and> startIndex ls = Some 5) \<and>
            (case processItem sheetStartAt5 s (itemOf 10 1) of Inl e \<Rightarrow> False | Inr s' \<Rightarrow> True)"
    by (simp add: model_defs docInterrupted_def sheetStartAt5_def itemOf_def cong: let_weak_cong)
  then obtain s s' ls where
      s: "processItems sheetStartAt5 (initialState docInterrupted) [itemOf 4 1, itemOf 6 1] = Inr s"
      and n: "encounteredLists s (js ''0'' @ js '':'' @ toString 1) = Num 7"
      and c: "isListContinuation (doc s) (itemOf 10 1) = Inr False"
      and d: "detectListStyle (doc s) (itemOf 10 1) sheetStartAt5 = Inr ls"
      and ls: "ls_type ls = js ''ol''" "startIndex ls = Some 5"
      and s': "processItem sheetStartAt5 s (itemOf 10 1) = Inr s'"
    by (auto split: sum.splits)
  have i: "c_id (itemOf 10 1) = Some (js ''0'')" "c_indent (itemOf 10 1) = Some 1"
    by (simp_all add: itemOf_def)
  have "toString 7 = js ''7''" by (simp add: toString.simps js_def)
  with reopened_list_starts_at_counter [OF s' i c d ls(1) refl] n
  have "tag (nodes (doc s') (length (doc s))) = js ''ol'' \<and>
      startAttr (nodes (doc s') (length (doc s))) = Some (js ''7'')"
    by simp
  with s s' d ls n show ?thesis by blast
qed

text \<open>
  Claim C2 as stated fails. In the document of two list paragraphs, a plain paragraph and
  a third list paragraph, with a style sheet that sets the start index 5 for the list and
  level, the style of the third paragraph has the explicit start index 5, and the list
  reopened for it starts at 7.
\<close>

theorem explicit_start_does_not_win:
  "startAttrAfter (normalize_doc docInterrupted sheetStartAt5) 15 = Some (Some (js ''7'')) \<and>
   tagAfter (normalize_doc docInterrupted sheetStartAt5) 15 = Some (js ''ol'') \<and>
   (\<exists>ls. detectListStyle docInterrupted (itemOf 10 1) sheetStartAt5 = Inr ls \<and>
         startIndex ls = Some 5)"
proof -
  have "case normalize_doc docInterrupted sheetStartAt5 of
          Inl e \<Rightarrow> False
        | Inr d \<Rightarrow> startAttr (nodes d 15) = Some (js ''7'') \<and> tag (nodes d 15) = js ''ol''"
    by (simp add: model_defs docInterrupted_def sheetStartAt5_def cong: let_weak_cong)
  then have 1: "startAttrAfter (normalize_doc docInterrupted sheetStartAt5) 15 = Some (Some (js ''7'')) \<and>
     tagAfter (normalize_doc docInterrupted sheetStartAt5) 15 = Some (js ''ol'')"
    by (auto simp: startAttrAfter_def tagAfter_def split: sum.splits)
  have "case detectListStyle docInterrupted (itemOf 10 1) sheetStartAt5 of
          Inl e \<Rightarrow> False | Inr ls \<Rightarrow> startIndex ls = Some 5"
    by (simp add: model_defs docInterrupted_def sheetStartAt5_def itemOf_def cong: let_weak_cong)
  then have "\<exists>ls. detectListStyle docInterrupted (itemOf 10 1) sheetStartAt5 = Inr ls \<and>
         startIndex ls = Some 5"
    by (auto split: sum.splits)
  with 1 show ?thesis by blast
qed

section \<open>A reopened list resumes the numbering\<close>



section \<open>The bullet of an unordered list\<close>

lemma mapListStyleDefinition_bullets:
  "mapListStyleDefinition (js ''bullet'') = None"
  "mapListStyleDefinition (js ''circle'') = Some (js ''circle'')"
  "mapListStyleDefinition (js ''disc'') = Some (js ''disc'')"
  "mapListStyleDefinition (js ''square'') = Some (js ''square'')"
  by (simp_all add: mapListStyleDefinition_def js_def)

text \<open>
  Claim C7. For a candidate whose rule block gives the number format \<open>bullet\<close>, in a
  list that is not a legal-style list, the list is a \<open>ul\<close> and its style comes from the
  text of the marker span alone: \<open>o\<close> gives \<open>circle\<close>, a first code unit 183 gives
  \<open>disc\<close>, the section sign (code unit 167) gives \<open>square\<close>, anything else gives no
  style. The candidate's parent is not a \<open>ul\<close>, as \<open>findAllItemLikeElements\<close> ensures.
\<close>

theorem bullet_marker_determines_style:
  assumes "listStyleMatch (c_id item) (c_indent item) ss = Some block"
    and "listStyleTypeMatch block = Some (js ''bullet'')"
    and "\<not> islegalStyleList (c_id item) ss"
    and "parentElement d (c_element item) = Some p" and "tag (nodes d p) \<noteq> js ''ul''"
    and "findListMarkerNode d (c_element item) = Some m"
  shows "\<exists>ls. detectListStyle d item ss = Inr ls \<and> ls_type ls = js ''ul'' \<and>
           ls_style ls =
             (if textContent d m = js ''o'' then Some (js ''circle'')
              else if textContent d m \<noteq> [] \<and> hd (textContent d m) = 183 then Some (js ''disc'')
              else if textContent d m = [167] then Some (js ''square'')
              else None)"
proof -
  have f: "findBulletedListStyle d (c_element item) = Inr (bulletOfMarker (textContent d m))"
    using assms(4-6) by (simp add: findBulletedListStyle_def Let_def)
  have b: "(case bulletOfMarker t of None \<Rightarrow> js ''bullet''
            | Some b \<Rightarrow> if b = [] then js ''bullet'' else b) =
           (if t = js ''o'' then js ''circle''
            else if t \<noteq> [] \<and> hd t = 183 then js ''disc''
            else if t = [167] then js ''square'' else js ''bullet'')" for t
    by (cases t) (auto simp: bulletOfMarker_def js_def)
  show ?thesis
    using assms(1-3) f
    by (simp add: detectListStyle_def b mapListStyleDefinition_bullets)
qed

theorem bullet_marker_determines_style_witness:
  "findAllItemLikeElements docMiddleDot = Inr [itemMiddleDot] \<and>
   (\<exists>ls. detectListStyle docMiddleDot itemMiddleDot sheetBullet = Inr ls \<and>
         ls_type ls = js ''ul'' \<and> ls_style ls = Some (js ''disc'')) \<and>
   tagAfter (normalize_doc docMiddleDot sheetBullet) 8 = Some (js ''ul'') \<and>
   styleAttrAfter (normalize_doc docMiddleDot sheetBullet) 8 =
     Some (Some (js ''list-style-type: disc;''))"
proof -
  have h: "listStyleMatch (c_id itemMiddleDot) (c_indent itemMiddleDot) sheetBullet =
             Some (js ''{mso-level-number-format: bullet;'')"
      "listStyleTypeMatch (js ''{mso-level-number-format: bullet;'') = Some (js ''bullet'')"
      "\<not> islegalStyleList (c_id itemMiddleDot) sheetBullet"
      "parentElement docMiddleDot (c_element itemMiddleDot) = Some 3"
      "tag (nodes docMiddleDot 3) \<noteq> js ''ul''"
      "findListMarkerNode docMiddleDot (c_element itemMiddleDot) = Some 5"
    by (simp_all add: model_defs docMiddleDot_def sheetBullet_def itemMiddleDot_def
        cong: let_weak_cong)
  have t: "textContent docMiddleDot 5 = [183, 160]"
    by (simp add: model_defs docMiddleDot_def)
  have 1: "\<exists>ls. detectListStyle docMiddleDot itemMiddleDot sheetBullet = Inr ls \<and>
         ls_type ls = js ''ul'' \<and> ls_style ls = Some (js ''disc'')"
    using bullet_marker_determines_style [OF h] by (simp add: t js_def)
  have 2: "findAllItemLikeElements docMiddleDot = Inr [itemMiddleDot]"
    by (simp add: model_defs docMiddleDot_def itemMiddleDot_def cong: let_weak_cong)
  have 3: "tagAfter (normalize_doc docMiddleDot sheetBullet) 8 = Some (js ''ul'') \<and>
     styleAttrAfter (normalize_doc docMiddleDot sheetBullet) 8 =
       Some (Some (js ''list-style-type: disc;''))"
    by (simp add: model_defs docMiddleDot_def sheetBullet_def cong: let_weak_cong)
  from 1 2 3 show ?thesis by blast
qed

section \<open>Preserved spaces\<close>

lemma strip_prefix_eq: "strip_prefix p s = Some r \<longleftrightarrow> s = p @ r"
  by (induction p s rule: strip_prefix.induct) auto

lemma strip_prefix_None: "strip_prefix p s = None \<longleftrightarrow> (\<forall>r. s \<noteq> p @ r)"
  using strip_prefix_eq [of p s] by (cases "strip_prefix p s") auto

lemma spanOpen_at_iff:
  \<open>spanOpen_at s = Some body \<longleftrightarrow>
   s = js ''<span>'' @ body \<or> s = js ''<span class="Apple-converted-space">'' @ body\<close>
  unfolding spanOpen_at_def
  by (auto simp: strip_prefix_eq strip_prefix_None js_def split: option.splits)

lemma takeWhile_spaces:
  "\<forall>c\<in>set sp. isSpace c \<Longrightarrow> takeWhile isSpace (sp @ js ''</span>'' @ r) = sp"
  "\<forall>c\<in>set sp. isSpace c \<Longrightarrow> dropWhile isSpace (sp @ js ''</span>'' @ r) = js ''</span>'' @ r"
  by (simp_all add: takeWhile_append2 dropWhile_append2 js_def isSpace_def)

lemma safariSpan_at_iff:
  \<open>safariSpan_at s = Some (sp, r) \<longleftrightarrow>
   sp \<noteq> [] \<and> (\<forall>c\<in>set sp. isSpace c) \<and>
   (s = js ''<span>'' @ sp @ js ''</span>'' @ r \<or>
    s = js ''<span class="Apple-converted-space">'' @ sp @ js ''</span>'' @ r)\<close>
  (is "?L \<longleftrightarrow> ?R")
proof
  assume ?L
  then obtain body where o: "spanOpen_at s = Some body" and sp: "sp = takeWhile isSpace body"
      and ne: "sp \<noteq> []" and c: "dropWhile isSpace body = js ''</span>'' @ r"
    by (auto simp: safariSpan_at_def strip_prefix_eq split: option.splits if_splits)
  have "body = sp @ js ''</span>'' @ r"
    using takeWhile_dropWhile_id [of isSpace body] by (simp add: sp c)
  moreover have "\<forall>c\<in>set sp. isSpace c"
    unfolding sp by (auto dest: set_takeWhileD)
  ultimately show ?R
    using o ne by (auto simp: spanOpen_at_iff)
next
  assume r: ?R
  then have "spanOpen_at s = Some (sp @ js ''</span>'' @ r)"
    by (auto simp: spanOpen_at_iff)
  moreover have "takeWhile isSpace (sp @ js ''</span>'' @ r) = sp"
      "dropWhile isSpace (sp @ js ''</span>'' @ r) = js ''</span>'' @ r"
    using r takeWhile_spaces [of sp r] by blast+
  moreover have "strip_prefix (js ''</span>'') (js ''</span>'' @ r) = Some r"
    by (simp only: strip_prefix_eq)
  ultimately show ?L
    using r unfolding safariSpan_at_def by (simp del: takeWhile_append dropWhile_append)
qed


text \<open>A match is not disturbed by what follows it.\<close>

lemma safariSpan_at_append:
  "safariSpan_at p = Some (sp, r) \<Longrightarrow> safariSpan_at (p @ t) = Some (sp, r @ t)"
  unfolding safariSpan_at_iff by auto

text \<open>The text of a match holds \<open><s\<close> at its start only.\<close>

lemma match_text_no_inner_open:
  assumes m: \<open>m = js ''<span>'' @ sp @ js ''</span>'' \<or>
              m = js ''<span class="Apple-converted-space">'' @ sp @ js ''</span>''\<close>
    and sp: "\<forall>c\<in>set sp. isSpace c"
    and eq: "m = p @ 60 # x # rest" and p: "p \<noteq> []"
  shows "x = 47"
proof -
  from m obtain o' where mo: "m = 60 # (o' @ sp) @ 60 # 47 # js ''span>''" and o': "60 \<notin> set o'"
    by (auto simp: js_def)
  have nsp: "60 \<notin> set (o' @ sp)" using o' sp by (auto simp: isSpace_def)
  from eq p mo obtain p' where p': "p = 60 # p'" by (cases p) auto
  with eq mo have e: "(o' @ sp) @ 60 # 47 # js ''span>'' = p' @ 60 # x # rest" by simp
  have "60 \<notin> set (47 # js ''span>'')" by (simp add: js_def)
  from append_Cons_eq_iff [OF nsp this] e have "47 # js ''span>'' = x # rest" by blast
  then show ?thesis by simp
qed

text \<open>Before an opening tag, a match that starts earlier also ends earlier.\<close>

lemma safariSpan_at_before_open:
  assumes "safariSpan_at (p @ 60 # 115 # t) = Some (sp, r)" and "p \<noteq> []"
  shows "\<exists>r'. r = r' @ 60 # 115 # t \<and> safariSpan_at p = Some (sp, r')"
proof -
  from assms(1) obtain m where
      m: \<open>m = js ''<span>'' @ sp @ js ''</span>'' \<or>
          m = js ''<span class="Apple-converted-space">'' @ sp @ js ''</span>''\<close>
      and sp: "sp \<noteq> []" "\<forall>c\<in>set sp. isSpace c"
      and eq: "p @ 60 # 115 # t = m @ r"
    unfolding safariSpan_at_iff by auto
  from eq obtain us where
      "(p = m @ us \<and> us @ 60 # 115 # t = r) \<or> (p @ us = m \<and> 60 # 115 # t = us @ r)"
    unfolding append_eq_append_conv2 by blast
  then consider (inside) us where "p = m @ us" "r = us @ 60 # 115 # t"
    | (across) us where "p @ us = m" "60 # 115 # t = us @ r" "us \<noteq> []"
    by (cases "us = []") auto
  then show ?thesis
  proof cases
    case inside
    with m sp show ?thesis unfolding safariSpan_at_iff by auto
  next
    case across
    then obtain us' where us: "us = 60 # us'" by (cases us) auto
    show ?thesis
    proof (cases us')
      case Nil
      with across us have "m = p @ [60]" by simp
      with m have False by (auto simp: js_def)
      then show ?thesis ..
    next
      case (Cons y us'')
      with across us have "y = 115" "m = p @ 60 # y # us''" by auto
      with match_text_no_inner_open [OF m sp(2) _ assms(2)] have False by fastforce
      then show ?thesis ..
    qed
  qed
qed

lemma safariSpan_at_None_before_open:
  "safariSpan_at p = None \<Longrightarrow> p \<noteq> [] \<Longrightarrow> safariSpan_at (p @ 60 # 115 # t) = None"
  using safariSpan_at_before_open [of p t] by (cases "safariSpan_at (p @ 60 # 115 # t)") auto

lemma normalizeSafariSpaceSpans_before_open:
  "normalizeSafariSpaceSpans (pre @ 60 # 115 # t) =
   normalizeSafariSpaceSpans pre @ normalizeSafariSpaceSpans (60 # 115 # t)"
proof -
  define X where "X = 60 # 115 # t"
  have "normalizeSafariSpaceSpans (pre @ X) =
        normalizeSafariSpaceSpans pre @ normalizeSafariSpaceSpans X"
  proof (induction pre rule: normalizeSafariSpaceSpans.induct)
    case 1
    show ?case by simp
  next
    case (2 c cs)
    show ?case
    proof (cases "safariSpan_at (c # cs)")
      case None
      then have "safariSpan_at ((c # cs) @ X) = None"
        unfolding X_def by (rule safariSpan_at_None_before_open) simp
      then have L: "normalizeSafariSpaceSpans (c # cs @ X) =
                 c # normalizeSafariSpaceSpans (cs @ X)" by simp
      have R: "normalizeSafariSpaceSpans (c # cs) = c # normalizeSafariSpaceSpans cs"
        using None by simp
      show ?thesis by (simp only: L R 2(1) [OF None] append_Cons)
    next
      case (Some a)
      then obtain sp r where a: "a = (sp, r)" by (cases a)
      with Some have "safariSpan_at ((c # cs) @ X) = Some (sp, r @ X)"
        by (intro safariSpan_at_append) simp
      then have L: "normalizeSafariSpaceSpans (c # cs @ X) =
                 safariReplacement sp @ normalizeSafariSpaceSpans (r @ X)" by simp
      have R: "normalizeSafariSpaceSpans (c # cs) =
                 safariReplacement sp @ normalizeSafariSpaceSpans r"
        using Some a by simp
      have "normalizeSafariSpaceSpans (r @ X) =
            normalizeSafariSpaceSpans r @ normalizeSafariSpaceSpans X"
        by (rule 2(2) [OF Some a [symmetric]])
      then show ?thesis by (simp only: L R append_assoc append_Cons)
    qed
  qed
  then show ?thesis by (simp add: X_def)
qed


lemma nth_alternating:
  "i < 2 * n \<Longrightarrow> concat (replicate n [160, 32::nat]) ! i = (if even i then 160 else 32)"
proof (induction n arbitrary: i)
  case 0
  then show ?case by simp
next
  case (Suc n)
  show ?case
  proof (cases i)
    case 0
    then show ?thesis by simp
  next
    case (Suc j)
    show ?thesis
    proof (cases j)
      case 0
      with Suc show ?thesis by simp
    next
      case (Suc k)
      with \<open>i = Suc j\<close> Suc.prems have "k < 2 * n" by simp
      from Suc.IH [OF this] \<open>i = Suc j\<close> Suc show ?thesis by simp
    qed
  qed
qed

lemma length_alternating: "length (concat (replicate n [160, 32::nat])) = 2 * n"
  by (induction n) simp_all

lemma length_nbspSpaces: "length (nbspSpaces n) = n"
  by (simp add: nbspSpaces_def length_alternating)

lemma nth_nbspSpaces: "i < n \<Longrightarrow> nbspSpaces n ! i = (if even i then 160 else 32)"
  by (simp add: nbspSpaces_def nth_alternating)

lemma length_foldl_orphan [simp]: "length (foldl orphan d cs) = length d"
  by (induction cs arbitrary: d) (simp_all add: orphan_def)

lemma descendants_leaf: "childNodes (nodes d n) = [] \<Longrightarrow> descendants f d n = []"
  by (cases f) simp_all

lemma textContent_setInnerText:
  assumes "el < length d"
  shows "textContent (setInnerText d el text) el = text"
proof -
  define d1 where "d1 = foldl orphan d (childNodes (nodes d el))"
  define d2 where "d2 = d1[el := (nodes d1 el)\<lparr>childNodes := []\<rparr>]"
  have len: "length d2 = length d" by (simp add: d2_def d1_def)
  show ?thesis
  proof (cases "text = []")
    case True
    have "childNodes (nodes d2 el) = []"
      using assms by (simp add: d2_def d1_def nodes_def)
    then have "descendants (fresh d2) d2 el = []" by (rule descendants_leaf)
    with True show ?thesis
      by (simp add: setInnerText_def Let_def d1_def [symmetric] d2_def [symmetric] textContent_def)
  next
    case False
    define d3 where "d3 = (d2 @ [(newText text)\<lparr>parentNode := Some el\<rparr>])
                [el := (nodes d2 el)\<lparr>childNodes := [fresh d2]\<rparr>]"
    have r: "setInnerText d el text = d3"
      using False
      by (simp add: setInnerText_def Let_def d1_def [symmetric] d2_def [symmetric] d3_def)
    have el: "childNodes (nodes d3 el) = [length d]"
      using assms len by (simp add: d3_def nodes_def fresh_def)
    have new: "nodes d3 (length d) = (newText text)\<lparr>parentNode := Some el\<rparr>"
      using assms len by (simp add: d3_def nodes_def nth_append)
    then have leaf: "descendants f d3 (length d) = []" for f
      by (intro descendants_leaf) (simp add: newText_def)
    have "fresh d3 = Suc (length d)" using len by (simp add: d3_def fresh_def)
    then have "descendants (fresh d3) d3 el = [length d]"
      by (simp add: el leaf)
    then show ?thesis
      unfolding r by (simp add: textContent_def new newText_def)
  qed
qed


text \<open>
  Claim C9, as amended. On the raw string, each span \<open><span>\<close> or
  \<open><span class="Apple-converted-space">\<close> that holds white space only is replaced,
  wherever it stands, by one space when it holds one white space character, and by the
  alternating sequence of non-breaking spaces (160) and spaces (32) of the same length
  when it holds more. In the tree, the text of a spacerun span of length \<open>N\<close> becomes the
  alternating sequence of length \<open>N\<close> for every \<open>N\<close>: there is no case for one space.
\<close>

theorem spans_become_space_sequences:
  assumes "sp \<noteq> []" and "\<forall>c\<in>set sp. isSpace c"
    and \<open>opn = js ''<span>'' \<or> opn = js ''<span class="Apple-converted-space">''\<close>
    and "el < length d"
  shows "normalizeSafariSpaceSpans (pre @ opn @ sp @ js ''</span>'' @ post) =
           normalizeSafariSpaceSpans pre @ safariReplacement sp @ normalizeSafariSpaceSpans post \<and>
         (length sp = 1 \<longrightarrow> safariReplacement sp = js '' '') \<and>
         (length sp > 1 \<longrightarrow> safariReplacement sp = nbspSpaces (length sp)) \<and>
         textContent (normalizeSpacerunSpan d el) el = nbspSpaces (length (textContent d el)) \<and>
         length (nbspSpaces n) = n \<and>
         (\<forall>i<n. nbspSpaces n ! i = (if even i then 160 else 32))"
proof -
  define t where "t = opn @ sp @ js ''</span>'' @ post"
  from assms(3) obtain t' where t': "t = 60 # 115 # t'"
    by (auto simp: t_def js_def)
  have "safariSpan_at t = Some (sp, post)"
    unfolding safariSpan_at_iff t_def using assms(1-3) by auto
  then have "normalizeSafariSpaceSpans t = safariReplacement sp @ normalizeSafariSpaceSpans post"
    by (simp add: t')
  moreover have "normalizeSafariSpaceSpans (pre @ t) =
                 normalizeSafariSpaceSpans pre @ normalizeSafariSpaceSpans t"
    unfolding t' by (rule normalizeSafariSpaceSpans_before_open)
  ultimately have 1: "normalizeSafariSpaceSpans (pre @ opn @ sp @ js ''</span>'' @ post) =
           normalizeSafariSpaceSpans pre @ safariReplacement sp @ normalizeSafariSpaceSpans post"
    by (simp add: t_def)
  have 2: "textContent (normalizeSpacerunSpan d el) el = nbspSpaces (length (textContent d el))"
    unfolding normalizeSpacerunSpan_def by (rule textContent_setInnerText [OF assms(4)])
  show ?thesis
    using 1 2 by (simp add: safariReplacement_def length_nbspSpaces nth_nbspSpaces)
qed

theorem spans_become_space_sequences_witness:
  "normalizeSafariSpaceSpans (js ''a<span>   </span>b'') = [97, 160, 32, 160, 98] \<and>
   normalizeSafariSpaceSpans (js ''a<span> </span>b'') = js ''a b'' \<and>
   textContent docSpacerun 6 = js '' '' \<and>
   textContent (normalizeSpacerunSpan docSpacerun 6) 6 = [160]"
proof -
  have sp: "\<forall>c\<in>set (js ''   ''). isSpace c" "\<forall>c\<in>set (js '' ''). isSpace c"
      "js ''   '' \<noteq> []" "js '' '' \<noteq> []" "6 < length docSpacerun"
    by (simp_all add: js_def isSpace_def docSpacerun_def docHead_def)
  have ab: "normalizeSafariSpaceSpans (js ''a'') = js ''a''"
      "normalizeSafariSpaceSpans (js ''b'') = js ''b''"
    by (simp_all add: model_defs)
  have tx: "textContent docSpacerun 6 = js '' ''"
    by (simp add: model_defs docSpacerun_def)
  have s3: "js ''a'' @ js ''<span>'' @ js ''   '' @ js ''</span>'' @ js ''b'' =
           js ''a<span>   </span>b''"
      "js ''a'' @ js ''<span>'' @ js '' '' @ js ''</span>'' @ js ''b'' = js ''a<span> </span>b''"
    by (simp_all add: js_def)
  note t3 = spans_become_space_sequences [OF sp(3) sp(1) disjI1 [OF refl] sp(5),
      of "js ''a''" "js ''b''" 3]
  note t1 = spans_become_space_sequences [OF sp(4) sp(2) disjI1 [OF refl] sp(5),
      of "js ''a''" "js ''b''" 1]
  have "normalizeSafariSpaceSpans (js ''a<span>   </span>b'') = [97, 160, 32, 160, 98]"
    using t3 by (simp add: s3 ab) (simp add: js_def nbspSpaces_def)
  moreover have "normalizeSafariSpaceSpans (js ''a<span> </span>b'') = js ''a b''"
    using t1 by (simp add: s3 ab) (simp add: js_def)
  moreover have "textContent (normalizeSpacerunSpan docSpacerun 6) 6 = [160]"
    using t1 by (simp add: tx) (simp add: js_def nbspSpaces_def)
  ultimately show ?thesis using tx by simp
qed

text \<open>
  Claim C9 as stated fails in the tree: a spacerun span that holds one space is left
  with a non-breaking space, not with a regular space.
\<close>

theorem single_space_spacerun_becomes_nbsp:
  "isSpacerunSpan docSpacerun 6 \<and> textContent docSpacerun 6 = js '' '' \<and>
   textContent (normalizeSpacerunSpans docSpacerun) 6 = [160]"
  by (simp add: model_defs docSpacerun_def cong: let_weak_cong)

section \<open>Attribute cleanup\<close>

lemma removeMSOStylesOf_empty:
  "keptDeclarations s = [] \<Longrightarrow> removeMSOStylesOf s = []"
  by (simp add: removeMSOStylesOf_def keptDeclarations_def declarations_def)

text \<open>The class right after a removed class is not visited, whatever its name.\<close>

lemma removeMsoClasses_skips:
  "matchesMso c \<Longrightarrow> removeMsoClasses (c # c' # cs) = c' # removeMsoClasses cs"
  by simp

text \<open>
  What the pass leaves at an element \<open>n\<close> that it visits: the classes that the loop over
  the live class list leaves, and, for an HTML element, of the declarations of the inline
  style exactly those whose property name does not match \<open>\bmso\<close>, in their order.
\<close>

lemma cleanup_of_a_visited_element:
  assumes "removeMSAttributesOn d items = Inr d'" and "distinct items"
    and "n \<in> set items" and "n < length d"
  shows "classList (nodes d' n) = removeMsoClasses (classList (nodes d n))"
    and "isHTMLElement (nodes d n) \<Longrightarrow>
           \<exists>s'. styleAttr (nodes d' n) = Some s' \<and>
                (if keptDeclarations (styleText (nodes d n)) = [] then s' = []
                 else declarations s' = keptDeclarations (styleText (nodes d n)))"
proof -
  have a: "attrs (nodes d' n) = attrs (cleanNode (nodes d n))"
    by (rule removeMSAttributesOn_node [OF assms])
  show "classList (nodes d' n) = removeMsoClasses (classList (nodes d n))"
    using attrs_eqD(1) [OF a] by (simp add: cleanNode_def Let_def)
  have s: "isHTMLElement (nodes d n) \<Longrightarrow>
           styleAttr (nodes d' n) = Some (removeMSOStylesOf (styleText (nodes d n)))"
    using attrs_eqD(5) [OF a] by (simp add: cleanNode_def Let_def styleText_def)
  have d: "if keptDeclarations s0 = [] then removeMSOStylesOf s0 = []
           else declarations (removeMSOStylesOf s0) = keptDeclarations s0" for s0
    using declarations_removeMSOStylesOf [of s0] removeMSOStylesOf_empty [of s0]
    by (simp add: keptDeclarations_def)
  show "\<exists>s'. styleAttr (nodes d' n) = Some s' \<and>
                (if keptDeclarations (styleText (nodes d n)) = [] then s' = []
                 else declarations s' = keptDeclarations (styleText (nodes d n)))"
    if "isHTMLElement (nodes d n)"
    using s [OF that] d [of "styleText (nodes d n)"] by simp
qed

text \<open>On \<open><p class="MsoNormal keep" style="color: red; mso-bidi-font-family: Arial; font-size: 12pt">x</p>\<close>
  the class \<open>keep\<close> and the two declarations that are not of \<open>mso\<close> are left.\<close>

lemma cleanup_keeps_the_other_declarations:
  "\<exists>d'. removeMSAttributes docMsoAttrs = Inr d' \<and>
        classList (nodes d' 4) = [js ''keep''] \<and>
        (\<exists>s'. styleAttr (nodes d' 4) = Some s' \<and>
              declarations s' = [js ''color: red'', js ''font-size: 12pt''])"
proof -
  have "\<exists>d'. removeMSAttributesOn docMsoAttrs (querySelectorAll_star docMsoAttrs) = Inr d'"
    by (simp add: model_defs docMsoAttrs_def docClass_def cong: let_weak_cong)
  then obtain d' where r: "removeMSAttributesOn docMsoAttrs (querySelectorAll_star docMsoAttrs) = Inr d'"
    by blast
  have h: "distinct (querySelectorAll_star docMsoAttrs)" "4 \<in> set (querySelectorAll_star docMsoAttrs)"
      "4 < length docMsoAttrs"
    by (simp_all add: model_defs docMsoAttrs_def docClass_def cong: let_weak_cong)
  have e: "removeMsoClasses (classList (nodes docMsoAttrs 4)) = [js ''keep'']"
      "isHTMLElement (nodes docMsoAttrs 4)"
      "keptDeclarations (styleText (nodes docMsoAttrs 4)) = [js ''color: red'', js ''font-size: 12pt'']"
    by (simp_all add: model_defs docMsoAttrs_def docClass_def cong: let_weak_cong)
  from cleanup_of_a_visited_element(1) [OF r h] e(1)
  have 1: "classList (nodes d' 4) = [js ''keep'']" by simp
  from cleanup_of_a_visited_element(2) [OF r h e(2)] e(3)
  have 2: "\<exists>s'. styleAttr (nodes d' 4) = Some s' \<and>
              declarations s' = [js ''color: red'', js ''font-size: 12pt'']"
    by auto
  from r 1 2 show ?thesis by (auto simp: removeMSAttributes_def)
qed

text \<open>
  Claim C8 says that the cleanup removes from every element every class whose name
  contains \<open>mso\<close>, and the comment at the loop says \<open>Eliminate all classes that include
  mso\<close>. The loop removes a class from the class list it is iterating, so the class that
  follows a removed class is never tested. On
  \<open><p class="MsoNormal MsoListParagraph">x</p>\<close> the class \<open>MsoNormal\<close> is removed and
  the class \<open>MsoListParagraph\<close>, which the test \<open>\bmso\<close> of the loop matches, stays.
\<close>

theorem matching_class_after_a_removed_class_stays:
  "matchesMso (js ''MsoListParagraph'') \<and>
   classList (nodes docTwoMso 4) = [js ''MsoNormal'', js ''MsoListParagraph''] \<and>
   classListAfter (normalize_doc docTwoMso []) 4 = Some [js ''MsoListParagraph'']"
  by (simp add: model_defs docTwoMso_def cong: let_weak_cong)

text \<open>
  The test of the loop is \<open>\bmso\<close> and not a substring test: the class \<open>xmso\<close> contains
  \<open>mso\<close>, but not at a word boundary, and the cleanup leaves it.
\<close>

lemma class_with_mso_inside_a_word_stays:
  "includes_str (js ''xmso'') (js ''mso'') \<and>
   classListAfter (normalize_doc (docClass (js ''xmso'')) []) 4 = Some [js ''xmso'']"
  by (simp add: model_defs docMsoAttrs_def docClass_def cong: let_weak_cong)

section \<open>The class of legal-style lists\<close>

text \<open>
  Claim C10, as amended. \<open>normalize\<close> attaches the class \<open>legal-list\<close> to no element: a
  node of the result that carries it is a node of the parsed input that carried it
  already. The lists that the engine creates get no class, whatever the style
  interpreter found, since \<open>createNewEmptyList\<close> is called with the flag \<open>false\<close>.
\<close>

theorem legal_list_class_is_never_attached:
  assumes "normalize_doc d ss = Inr d'"
    and "js ''legal-list'' \<in> set (classList (nodes d' n))"
  shows "n < length d \<and> js ''legal-list'' \<in> set (classList (nodes d n)) \<and>
         classList (nodes (fst (createNewEmptyList d0 ls False))
                          (snd (createNewEmptyList d0 ls False))) = []"
  using normalize_classes [OF assms]
  by (auto simp: createNewEmptyList_def Let_def fresh_def nodes_append newElement_def
      split: option.splits)

theorem legal_list_class_is_never_attached_witness:
  "\<exists>d'. normalize_doc (docClass (js ''legal-list'')) [] = Inr d' \<and>
        js ''legal-list'' \<in> set (classList (nodes d' 4)) \<and>
        4 < length (docClass (js ''legal-list'')) \<and>
        js ''legal-list'' \<in> set (classList (nodes (docClass (js ''legal-list'')) 4))"
proof -
  have "\<exists>d'. normalize_doc (docClass (js ''legal-list'')) [] = Inr d' \<and>
        js ''legal-list'' \<in> set (classList (nodes d' 4))"
    by (simp add: model_defs docClass_def cong: let_weak_cong)
  then obtain d' where r: "normalize_doc (docClass (js ''legal-list'')) [] = Inr d'"
    and c: "js ''legal-list'' \<in> set (classList (nodes d' 4))" by blast
  from legal_list_class_is_never_attached [OF r c] r c show ?thesis by blast
qed

text \<open>
  Claim C10 as stated fails: an element of the input that has the class \<open>legal-list\<close>
  keeps it, so the output can hold an element with that class.
\<close>

theorem legal_list_class_of_the_input_stays:
  "classListAfter (normalize_doc (docClass (js ''legal-list'')) []) 4 = Some [js ''legal-list'']"
  by (simp add: model_defs docClass_def cong: let_weak_cong)

end
